theory Spec2Isabelle
  imports Complex_Main "HOL-Library.Multiset" "HOL-Library.Log_Nat"
begin

section \<open>Data model\<close>

text \<open>
  The program is \<^verbatim>\<open>pdf_table_extractor.py\<close>. A word delivered by
  \<^verbatim>\<open>page.extract_words()\<close> is a Python dict; the program reads the four keys
  \<^verbatim>\<open>'text'\<close>, \<^verbatim>\<open>'x0'\<close>, \<^verbatim>\<open>'x1'\<close> and \<^verbatim>\<open>'top'\<close> of it.
  A token is that dict restricted to these keys: \<open>None\<close> is a missing key, whose
  subscription raises \<^verbatim>\<open>KeyError\<close>. A coordinate is a Python float, a finite IEEE 754
  double, given by its rational value; the tolerance is a Python int within the range
  of a double. A string is a list of characters with code points below 256.
\<close>

record token =
  tok_text :: "string option"
  tok_x0 :: "rat option"
  tok_x1 :: "rat option"
  tok_top :: "rat option"

datatype error = KeyError string | ZeroDivisionError

type_synonym row = "token list"

text \<open>A cell of a table of \<^verbatim>\<open>page.extract_tables()\<close> is a string or \<^verbatim>\<open>None\<close>.\<close>

type_synonym cell = "string option"

type_synonym table = "cell list list"

text \<open>
  A page is what the two calls of the program on it return:
  \<^verbatim>\<open>page.extract_tables()\<close> and \<^verbatim>\<open>page.extract_words()\<close>.
\<close>

record page =
  extract_tables :: "table list"
  extract_words :: "token list"

section \<open>Python primitives\<close>

text \<open>Rounding to an integer, an exact half to the even neighbour.\<close>

definition round_half_even :: "rat \<Rightarrow> int" where
  "round_half_even x =
     (let f = \<lfloor>x\<rfloor>; d = x - of_int f
      in if d < 1 / 2 then f else if 1 / 2 < d then f + 1
         else if even f then f else f + 1)"

text \<open>
  \<^verbatim>\<open>round(x)\<close> of Python 3 with one argument returns an int, exactly, and rounds an
  exact half to the even neighbour.
\<close>

definition py_round :: "rat \<Rightarrow> int" where
  "py_round x = round_half_even x"

text \<open>
  The arithmetic of Python floats. For a non-zero \<open>x\<close>, \<open>ilog2 x\<close> is the exponent
  \<open>e\<close> with \<open>2 powi e \<le> \<bar>x\<bar> < 2 powi (e + 1)\<close>, and \<open>ulp x\<close> is the distance of
  neighbouring doubles at \<open>x\<close>: 53 significant bits, and \<open>2 powi (- 1074)\<close> in the
  subnormal range. \<open>fl x\<close> is the double nearest to \<open>x\<close>, a tie going to the even
  significand; a value of \<open>2 ^ 1024\<close> or more stands for the infinity that the
  operation returns.
\<close>

definition ilog2 :: "rat \<Rightarrow> int" where
  "ilog2 x = (if 1 \<le> \<bar>x\<bar> then bitlen \<lfloor>\<bar>x\<bar>\<rfloor> - 1 else - bitlen (\<lceil>1 / \<bar>x\<bar>\<rceil> - 1))"

definition ulp :: "rat \<Rightarrow> rat" where
  "ulp x = 2 powi (max (ilog2 x - 52) (- 1074))"

definition fl :: "rat \<Rightarrow> rat" where
  "fl x = (if x = 0 then 0 else of_int (round_half_even (x / ulp x)) * ulp x)"

text \<open>
  A float operation returns the double nearest to its exact result: the division
  \<^verbatim>\<open>a / b\<close> for \<open>b \<noteq> 0\<close>, the subtraction \<^verbatim>\<open>a - b\<close>, and the conversion of an int
  that meets a float in an operation.
\<close>

definition float_div :: "rat \<Rightarrow> rat \<Rightarrow> rat" where
  "float_div a b = fl (a / b)"

definition float_sub :: "rat \<Rightarrow> rat \<Rightarrow> rat" where
  "float_sub a b = fl (a - b)"

definition float_of_int :: "int \<Rightarrow> rat" where
  "float_of_int n = fl (of_int n)"

text \<open>The rational is the value of a finite double.\<close>

definition is_double :: "rat \<Rightarrow> bool" where
  "is_double x = (fl x = x \<and> \<bar>x\<bar> < 2 ^ 1024)"

text \<open>
  The characters below 256 that \<^verbatim>\<open>str.isspace\<close> accepts, which are the ones
  \<^verbatim>\<open>str.strip()\<close> removes from both ends of a string.
\<close>

definition is_space :: "char \<Rightarrow> bool" where
  "is_space c = (of_char c \<in> set [9, 10, 11, 12, 13, 28, 29, 30, 31, 32, 133, 160 :: nat])"

definition strip :: "string \<Rightarrow> string" where
  "strip s = rev (dropWhile is_space (rev (dropWhile is_space s)))"

section \<open>Row clustering: \<^verbatim>\<open>group_text_into_rows\<close>\<close>

text \<open>
  \<^verbatim>\<open>y = round(obj['top'] / tolerance) * tolerance\<close>, for a non-zero tolerance: a
  float is divided by an int, the rounded quotient is an int, and the product of two
  ints is exact.
\<close>

definition row_key :: "rat \<Rightarrow> int \<Rightarrow> int" where
  "row_key t tolerance = py_round (float_div t (float_of_int tolerance)) * tolerance"

text \<open>
  The dict \<^verbatim>\<open>rows\<close> is an association list in insertion order.
  \<^verbatim>\<open>rows.setdefault(y, []).append(obj)\<close>:
\<close>

fun setdefault_append :: "int \<Rightarrow> token \<Rightarrow> (int \<times> row) list \<Rightarrow> (int \<times> row) list" where
  "setdefault_append y obj [] = [(y, [obj])]"
| "setdefault_append y obj ((k, v) # rows) =
     (if k = y then (k, v @ [obj]) # rows else (k, v) # setdefault_append y obj rows)"

text \<open>The first loop, lines 42 to 45.\<close>

fun bucket_loop :: "token list \<Rightarrow> int \<Rightarrow> (int \<times> row) list \<Rightarrow> error + (int \<times> row) list" where
  "bucket_loop [] tolerance rows = Inr rows"
| "bucket_loop (obj # objs) tolerance rows =
     (case tok_top obj of
        None \<Rightarrow> Inl (KeyError ''top'')
      | Some t \<Rightarrow>
          if tolerance = 0 then Inl ZeroDivisionError
          else bucket_loop objs tolerance (setdefault_append (row_key t tolerance) obj rows))"

text \<open>
  \<^verbatim>\<open>sorted(rows[y], key=lambda x: x['x0'])\<close>: the key of every element is computed
  first, then the list is sorted stably (\<open>sort_key\<close> is a stable insertion sort).
\<close>

definition sort_row :: "row \<Rightarrow> error + row" where
  "sort_row r =
     (if list_all (\<lambda>x. tok_x0 x \<noteq> None) r
      then Inr (sort_key (\<lambda>x. the (tok_x0 x)) r)
      else Inl (KeyError ''x0''))"

text \<open>The second loop, lines 49 to 52, over the sorted keys.\<close>

fun sorted_rows_loop :: "int list \<Rightarrow> (int \<times> row) list \<Rightarrow> error + row list" where
  "sorted_rows_loop [] rows = Inr []"
| "sorted_rows_loop (y # ys) rows =
     (case map_of rows y of
        None \<Rightarrow> Inl (KeyError ''y'')
      | Some v \<Rightarrow>
          (case sort_row v of
             Inl e \<Rightarrow> Inl e
           | Inr r \<Rightarrow>
               (case sorted_rows_loop ys rows of
                  Inl e \<Rightarrow> Inl e
                | Inr rs \<Rightarrow> Inr (r # rs))))"

definition group_text_into_rows :: "token list \<Rightarrow> int \<Rightarrow> error + row list" where
  "group_text_into_rows text_objs tolerance =
     (case bucket_loop text_objs tolerance [] of
        Inl e \<Rightarrow> Inl e
      | Inr rows \<Rightarrow> sorted_rows_loop (sort (map fst rows)) rows)"

section \<open>Cell assembly: \<^verbatim>\<open>build_table_from_rows\<close>\<close>

definition col_tolerance :: rat where
  "col_tolerance = 10"

text \<open>
  The test \<^verbatim>\<open>last_x is None or word['x0'] - last_x > col_tolerance\<close>; the key
  \<^verbatim>\<open>'x0'\<close> is read only when \<^verbatim>\<open>last_x\<close> is set. The difference is a float
  subtraction, and its comparison with the int 10 is exact.
\<close>

definition new_cell :: "token \<Rightarrow> rat option \<Rightarrow> error + bool" where
  "new_cell word last_x =
     (case last_x of
        None \<Rightarrow> Inr True
      | Some l \<Rightarrow>
          (case tok_x0 word of
             None \<Rightarrow> Inl (KeyError ''x0'')
           | Some x \<Rightarrow> Inr (float_sub x l > col_tolerance)))"

text \<open>
  \<^verbatim>\<open>if current_cell: row_data.append(current_cell.strip())\<close>, which the source has
  twice: at a cell boundary (lines 72 and 73) and after the loop (lines 78 and 79).
\<close>

definition append_cell :: "string list \<Rightarrow> string \<Rightarrow> string list" where
  "append_cell row_data current_cell =
     (if current_cell \<noteq> [] then row_data @ [strip current_cell] else row_data)"

text \<open>
  The inner loop, lines 68 to 77, on the state \<^verbatim>\<open>row_data\<close>, \<^verbatim>\<open>current_cell\<close>,
  \<^verbatim>\<open>last_x\<close>.
\<close>

fun scan_words :: "row \<Rightarrow> string list \<Rightarrow> string \<Rightarrow> rat option
    \<Rightarrow> error + (string list \<times> string \<times> rat option)" where
  "scan_words [] row_data current_cell last_x = Inr (row_data, current_cell, last_x)"
| "scan_words (word # ws) row_data current_cell last_x =
     (case new_cell word last_x of
        Inl e \<Rightarrow> Inl e
      | Inr b \<Rightarrow>
          (case tok_text word of
             None \<Rightarrow> Inl (KeyError ''text'')
           | Some s \<Rightarrow>
               (case tok_x1 word of
                  None \<Rightarrow> Inl (KeyError ''x1'')
                | Some r \<Rightarrow>
                    if b then scan_words ws (append_cell row_data current_cell) (s @ '' '') (Some r)
                    else scan_words ws row_data (current_cell @ s @ '' '') (Some r))))"

text \<open>The flush of lines 78 and 79 on the state the inner loop ends in.\<close>

fun flush :: "error + (string list \<times> string \<times> rat option) \<Rightarrow> error + string list" where
  "flush (Inl e) = Inl e"
| "flush (Inr (row_data, current_cell, last_x)) = Inr (append_cell row_data current_cell)"

text \<open>The body of the outer loop for one row.\<close>

definition build_row :: "row \<Rightarrow> error + string list" where
  "build_row r = flush (scan_words r [] [] None)"

fun build_table_from_rows :: "row list \<Rightarrow> error + string list list" where
  "build_table_from_rows [] = Inr []"
| "build_table_from_rows (r # rows) =
     (case build_row r of
        Inl e \<Rightarrow> Inl e
      | Inr row_data \<Rightarrow>
          (case build_table_from_rows rows of
             Inl e \<Rightarrow> Inl e
           | Inr table \<Rightarrow> Inr (row_data # table)))"

section \<open>The caller: \<^verbatim>\<open>extract_tables_from_pdf\<close>\<close>

text \<open>
  What the loop body does to the outside is recorded as a trace: the call
  \<^verbatim>\<open>page.extract_words()\<close> that opens the fallback path, and the message printed
  when the fallback finds no row.
\<close>

datatype event = Extract_words nat | Print_no_table nat

text \<open>The page an event is about.\<close>

fun event_page :: "event \<Rightarrow> nat" where
  "event_page (Extract_words n) = n"
| "event_page (Print_no_table n) = n"

text \<open>
  The filter of line 21,
  \<^verbatim>\<open>any(row for row in table if any(cell is not None for cell in row))\<close>.
\<close>

definition usable :: "table \<Rightarrow> bool" where
  "usable t = list_ex (\<lambda>row. row \<noteq> []) (filter (\<lambda>row. list_ex (\<lambda>cell. cell \<noteq> None) row) t)"

text \<open>The fallback of lines 25 to 29 up to the test of \<^verbatim>\<open>rows\<close>: the heuristic core.\<close>

definition core :: "token list \<Rightarrow> int \<Rightarrow> error + string list list" where
  "core text_objs tolerance =
     (case group_text_into_rows text_objs tolerance of
        Inl e \<Rightarrow> Inl e
      | Inr rows \<Rightarrow> build_table_from_rows rows)"

text \<open>
  The loop body for page number \<open>n\<close>, on the list \<^verbatim>\<open>extracted_tables\<close>. The
  tolerance of the call of line 26 is the default, 3.
\<close>

definition page_step :: "nat \<Rightarrow> page \<Rightarrow> table list \<Rightarrow> event list \<times> (error + table list)" where
  "page_step n p extracted_tables =
     (if extract_tables p \<noteq> [] then
        ([], Inr (extracted_tables @ filter usable (extract_tables p)))
      else
        (case group_text_into_rows (extract_words p) 3 of
           Inl e \<Rightarrow> ([Extract_words n], Inl e)
         | Inr rows \<Rightarrow>
             if rows \<noteq> [] then
               (case build_table_from_rows rows of
                  Inl e \<Rightarrow> ([Extract_words n], Inl e)
                | Inr t \<Rightarrow> ([Extract_words n], Inr (extracted_tables @ [map (map Some) t])))
             else ([Extract_words n, Print_no_table n], Inr extracted_tables)))"

fun pages_loop :: "nat \<Rightarrow> page list \<Rightarrow> table list \<Rightarrow> event list \<times> (error + table list)" where
  "pages_loop n [] extracted_tables = ([], Inr extracted_tables)"
| "pages_loop n (p # ps) extracted_tables =
     (case page_step n p extracted_tables of
        (tr, Inl e) \<Rightarrow> (tr, Inl e)
      | (tr, Inr ts) \<Rightarrow>
          (case pages_loop (Suc n) ps ts of (tr', res) \<Rightarrow> (tr @ tr', res)))"

definition extract_tables_from_pdf :: "page list \<Rightarrow> event list \<times> (error + table list)" where
  "extract_tables_from_pdf pages = pages_loop 1 pages []"

section \<open>Notions of the specification\<close>

text \<open>A token that has all four fields, and the fields of such a token.\<close>

definition wf_token :: "token \<Rightarrow> bool" where
  "wf_token t = (tok_text t \<noteq> None \<and> tok_x0 t \<noteq> None \<and> tok_x1 t \<noteq> None \<and> tok_top t \<noteq> None)"

definition text_of :: "token \<Rightarrow> string" where
  "text_of t = the (tok_text t)"

definition x0_of :: "token \<Rightarrow> rat" where
  "x0_of t = the (tok_x0 t)"

definition x1_of :: "token \<Rightarrow> rat" where
  "x1_of t = the (tok_x1 t)"

text \<open>The token with the text \<open>s\<close>, from \<open>a\<close> to \<open>b\<close> at height \<open>y\<close>.\<close>

definition word :: "string \<Rightarrow> rat \<Rightarrow> rat \<Rightarrow> rat \<Rightarrow> token" where
  "word s a b y = \<lparr>tok_text = Some s, tok_x0 = Some a, tok_x1 = Some b, tok_top = Some y\<rparr>"

text \<open>The bucket key of a token that has a \<^verbatim>\<open>top\<close>.\<close>

definition key_of :: "int \<Rightarrow> token \<Rightarrow> int option" where
  "key_of tolerance t = map_option (\<lambda>y. row_key y tolerance) (tok_top t)"

text \<open>
  The cells of a row in the words of the specification, as groups of tokens: the first
  token opens a cell, and a later token opens a cell when its \<^verbatim>\<open>x0\<close> minus the
  \<^verbatim>\<open>x1\<close> of the token before it exceeds the column tolerance; otherwise it joins
  the cell of the token before it. The difference is the one of floats.
\<close>

fun spec_cells :: "row \<Rightarrow> row list" where
  "spec_cells [] = []"
| "spec_cells [t] = [[t]]"
| "spec_cells (t # t' # ts) =
     (if float_sub (x0_of t') (x1_of t) > col_tolerance then [t] # spec_cells (t' # ts)
      else (case spec_cells (t' # ts) of [] \<Rightarrow> [[t]] | g # gs \<Rightarrow> (t # g) # gs))"

text \<open>\<^verbatim>\<open>" ".join(ss)\<close>: the strings with one space between neighbours.\<close>

fun join_spaces :: "string list \<Rightarrow> string" where
  "join_spaces [] = []"
| "join_spaces [s] = s"
| "join_spaces (s # s' # ss) = s @ '' '' @ join_spaces (s' # ss)"

text \<open>The string of a cell made of the tokens \<open>g\<close>.\<close>

definition cell_text :: "row \<Rightarrow> string" where
  "cell_text g = strip (join_spaces (map text_of g))"

text \<open>What the loop has put into \<^verbatim>\<open>current_cell\<close> after the tokens \<open>g\<close> of one cell.\<close>

definition cell_acc :: "row \<Rightarrow> string" where
  "cell_acc g = concat (map (\<lambda>t. text_of t @ '' '') g)"

text \<open>
  The invariant of the dict \<^verbatim>\<open>rows\<close> in the first loop: the keys are distinct, no
  bucket is empty, and every token of a bucket has the key of the bucket.
\<close>

definition dict_inv :: "int \<Rightarrow> (int \<times> row) list \<Rightarrow> bool" where
  "dict_inv tolerance rows =
     (distinct (map fst rows)
      \<and> list_all (\<lambda>(k, v). v \<noteq> [] \<and> list_all (\<lambda>t. key_of tolerance t = Some k) v) rows)"

section \<open>Rounding\<close>

lemma round_half_even_cases:
  fixes x :: rat
  obtains (down) "x - of_int \<lfloor>x\<rfloor> < 1 / 2" "round_half_even x = \<lfloor>x\<rfloor>"
  | (up) "1 / 2 < x - of_int \<lfloor>x\<rfloor>" "round_half_even x = \<lfloor>x\<rfloor> + 1"
  | (tie_even) "x - of_int \<lfloor>x\<rfloor> = 1 / 2" "even \<lfloor>x\<rfloor>" "round_half_even x = \<lfloor>x\<rfloor>"
  | (tie_odd) "x - of_int \<lfloor>x\<rfloor> = 1 / 2" "odd \<lfloor>x\<rfloor>" "round_half_even x = \<lfloor>x\<rfloor> + 1"
  unfolding round_half_even_def Let_def
  by (cases "x - of_int \<lfloor>x\<rfloor>" "1 / 2 :: rat" rule: linorder_cases) auto

lemma round_half_even_near: "2 * \<bar>x - of_int (round_half_even x)\<bar> \<le> 1"
proof -
  have f: "of_int \<lfloor>x\<rfloor> \<le> x" "x < of_int \<lfloor>x\<rfloor> + 1" by linarith+
  show ?thesis
    by (cases x rule: round_half_even_cases) (use f in \<open>simp_all add: abs_if, linarith+\<close>)
qed

lemma round_half_even_tie:
  assumes a: "2 * \<bar>x - of_int (round_half_even x)\<bar> = 1"
  shows "even (round_half_even x)"
proof -
  have f: "of_int \<lfloor>x\<rfloor> \<le> x" "x < of_int \<lfloor>x\<rfloor> + 1" by linarith+
  show ?thesis
  proof (cases x rule: round_half_even_cases)
    case down
    with a f have False by (simp add: abs_if split: if_splits)
    then show ?thesis ..
  next
    case up
    with a f have False by (simp add: abs_if split: if_splits)
    then show ?thesis ..
  next
    case tie_even
    then show ?thesis by simp
  next
    case tie_odd
    then show ?thesis by simp
  qed
qed

lemma round_half_even_of_int: "round_half_even (of_int k) = k"
  by (simp add: round_half_even_def)

lemma ilog2_bounds:
  assumes "x \<noteq> 0"
  shows "2 powi (ilog2 x) \<le> \<bar>x\<bar>" and "\<bar>x\<bar> < 2 powi (ilog2 x + 1)"
proof -
  have "2 powi (ilog2 x) \<le> \<bar>x\<bar> \<and> \<bar>x\<bar> < 2 powi (ilog2 x + 1)"
  proof (cases "1 \<le> \<bar>x\<bar>")
    case True
    define n where "n = \<lfloor>\<bar>x\<bar>\<rfloor>"
    have n1: "1 \<le> n" using True by (simp add: n_def le_floor_iff)
    then have n0: "0 < n" by simp
    have nx: "of_int n \<le> \<bar>x\<bar>" "\<bar>x\<bar> < of_int n + 1" unfolding n_def by linarith+
    from n0 have b1: "1 \<le> bitlen n" by (simp add: bitlen_alt_def)
    note bb = bitlen_bounds [OF n0]
    have e: "ilog2 x = bitlen n - 1" using True by (simp add: ilog2_def n_def)
    have p1: "(2::rat) powi (bitlen n - 1) = of_int (2 ^ nat (bitlen n - 1))"
      using b1 by (simp add: power_int_nonneg_exp)
    have p2: "(2::rat) powi (bitlen n - 1 + 1) = of_int (2 ^ nat (bitlen n))"
      using b1 by (simp add: power_int_nonneg_exp)
    have "rat_of_int (2 ^ nat (bitlen n - 1)) \<le> of_int n" using bb by (simp only: of_int_le_iff)
    with nx have l: "(2::rat) powi (bitlen n - 1) \<le> \<bar>x\<bar>" unfolding p1 by linarith
    from bb have "n + 1 \<le> 2 ^ nat (bitlen n)" by simp
    then have "rat_of_int (n + 1) \<le> of_int (2 ^ nat (bitlen n))" by (simp only: of_int_le_iff)
    with nx have u: "\<bar>x\<bar> < (2::rat) powi (bitlen n - 1 + 1)" unfolding p2 by simp
    show ?thesis using l u unfolding e by simp
  next
    case False
    define y where "y = 1 / \<bar>x\<bar>"
    define k where "k = \<lceil>y\<rceil> - 1"
    have ax: "0 < \<bar>x\<bar>" "\<bar>x\<bar> < 1" using assms False by simp_all
    then have y1: "1 < y" by (simp add: y_def)
    have ky: "of_int k < y" "y \<le> of_int k + 1" unfolding k_def by linarith+
    have k0: "0 < k" using y1 ky by linarith
    from k0 have b1: "1 \<le> bitlen k" by (simp add: bitlen_alt_def)
    note bb = bitlen_bounds [OF k0]
    have e: "ilog2 x = - bitlen k" using False by (simp add: ilog2_def k_def y_def)
    have xy: "\<bar>x\<bar> = 1 / y" using ax by (simp add: y_def)
    have p1: "(2::rat) powi (- bitlen k) = 1 / of_int (2 ^ nat (bitlen k))"
      using b1 by (simp add: power_int_minus_divide power_int_nonneg_exp)
    have p2: "(2::rat) powi (- bitlen k + 1) = 1 / of_int (2 ^ nat (bitlen k - 1))"
    proof -
      have "- bitlen k + 1 = - (bitlen k - 1)" by simp
      then show ?thesis using b1 by (simp only: power_int_minus_divide) (simp add: power_int_nonneg_exp)
    qed
    from bb have "k + 1 \<le> 2 ^ nat (bitlen k)" by simp
    then have "rat_of_int (k + 1) \<le> of_int (2 ^ nat (bitlen k))" by (simp only: of_int_le_iff)
    with ky have "y \<le> of_int (2 ^ nat (bitlen k))" by simp
    then have l: "1 / of_int (2 ^ nat (bitlen k)) \<le> 1 / y" using y1 by (intro divide_left_mono) simp_all
    from bb have "rat_of_int (2 ^ nat (bitlen k - 1)) \<le> of_int k" by (simp only: of_int_le_iff)
    then have "rat_of_int (2 ^ nat (bitlen k - 1)) < y" using ky(1) by (rule le_less_trans)
    moreover have "0 < y" using y1 by simp
    ultimately have u: "1 / y < 1 / of_int (2 ^ nat (bitlen k - 1))"
      by (intro divide_strict_left_mono) (simp_all add: zero_less_mult_iff)
    show ?thesis using l u unfolding e p1 p2 xy by simp
  qed
  then show "2 powi (ilog2 x) \<le> \<bar>x\<bar>" and "\<bar>x\<bar> < 2 powi (ilog2 x + 1)" by simp_all
qed

lemma ulp_pos: "0 < ulp x"
  by (simp add: ulp_def)

lemma round_half_even_floor: "\<lfloor>x\<rfloor> \<le> round_half_even x"
  by (simp add: round_half_even_def Let_def)

lemma round_half_even_ceiling: "round_half_even x \<le> \<lceil>x\<rceil>"
proof -
  have c: "x - of_int \<lfloor>x\<rfloor> > 0 \<Longrightarrow> \<lceil>x\<rceil> = \<lfloor>x\<rfloor> + 1" by linarith
  show ?thesis
    using c by (auto simp: round_half_even_def Let_def floor_le_ceiling)
qed

lemma round_half_even_ge:
  assumes "of_int k \<le> x"
  shows "k \<le> round_half_even x"
proof -
  from assms have "k \<le> \<lfloor>x\<rfloor>" by (simp add: le_floor_iff)
  with round_half_even_floor [of x] show ?thesis by linarith
qed

lemma round_half_even_le:
  assumes "x \<le> of_int k"
  shows "round_half_even x \<le> k"
proof -
  from assms have "\<lceil>x\<rceil> \<le> k" by (simp add: ceiling_le_iff)
  with round_half_even_ceiling [of x] show ?thesis by linarith
qed

lemma fl_ge:
  assumes "of_int k * ulp x \<le> x"
  shows "of_int k * ulp x \<le> fl x"
proof (cases "x = 0")
  case True
  with assms show ?thesis by (simp add: fl_def)
next
  case False
  from assms have "of_int k \<le> x / ulp x" using ulp_pos [of x] by (simp add: pos_le_divide_eq)
  then have "k \<le> round_half_even (x / ulp x)" by (rule round_half_even_ge)
  then have "rat_of_int k \<le> of_int (round_half_even (x / ulp x))" by (simp only: of_int_le_iff)
  then have "of_int k * ulp x \<le> of_int (round_half_even (x / ulp x)) * ulp x"
    using ulp_pos [of x] by (intro mult_right_mono) simp_all
  then show ?thesis using False by (simp add: fl_def)
qed

lemma fl_le:
  assumes "x \<le> of_int k * ulp x"
  shows "fl x \<le> of_int k * ulp x"
proof (cases "x = 0")
  case True
  with assms show ?thesis by (simp add: fl_def)
next
  case False
  from assms have "x / ulp x \<le> of_int k" using ulp_pos [of x] by (simp add: pos_divide_le_eq)
  then have "round_half_even (x / ulp x) \<le> k" by (rule round_half_even_le)
  then have "rat_of_int (round_half_even (x / ulp x)) \<le> of_int k" by (simp only: of_int_le_iff)
  then have "of_int (round_half_even (x / ulp x)) * ulp x \<le> of_int k * ulp x"
    using ulp_pos [of x] by (intro mult_right_mono) simp_all
  then show ?thesis using False by (simp add: fl_def)
qed

lemma round_half_even_gt_even:
  assumes "even m"
  shows "m < round_half_even y \<longleftrightarrow> of_int m + 1 / 2 < y"
proof -
  define f where "f = \<lfloor>y\<rfloor>"
  have fy: "of_int f \<le> y" "y < of_int f + 1" unfolding f_def by linarith+
  have r: "round_half_even y = (if y - of_int f < 1 / 2 then f else if 1 / 2 < y - of_int f then f + 1
      else if even f then f else f + 1)"
    by (simp add: round_half_even_def Let_def f_def)
  show ?thesis
  proof
    assume a: "m < round_half_even y"
    show "of_int m + 1 / 2 < y"
    proof (rule ccontr)
      assume "\<not> of_int m + 1 / 2 < y"
      then have le: "y \<le> of_int m + 1 / 2" by simp
      with fy have "rat_of_int f < of_int m + 1" by linarith
      then have "rat_of_int f < of_int (m + 1)" by simp
      then have "f < m + 1" by (simp only: of_int_less_iff)
      then have fm: "f \<le> m" by simp
      show False
      proof (cases "f = m")
        case True
        with le have "y - of_int f \<le> 1 / 2" by simp
        with r True assms have "round_half_even y = m" by (auto split: if_splits)
        with a show False by simp
      next
        case False
        with fm have "f + 1 \<le> m" by simp
        moreover have "round_half_even y \<le> f + 1" unfolding r by simp
        ultimately show False using a by simp
      qed
    qed
  next
    assume a: "of_int m + 1 / 2 < y"
    with fy have "rat_of_int m < of_int f + 1" by linarith
    then have "rat_of_int m < of_int (f + 1)" by simp
    then have "m < f + 1" by (simp only: of_int_less_iff)
    then have mf: "m \<le> f" by simp
    show "m < round_half_even y"
    proof (cases "f = m")
      case True
      with a have "1 / 2 < y - of_int f" by simp
      with r True show ?thesis by simp
    next
      case False
      with mf have "m < f" by simp
      moreover have "f \<le> round_half_even y" unfolding r by simp
      ultimately show ?thesis by simp
    qed
  qed
qed

lemma ilog2_less:
  assumes "x \<noteq> 0" and "\<bar>x\<bar> < 2 powi k"
  shows "ilog2 x < k"
proof (rule ccontr)
  assume "\<not> ilog2 x < k"
  then have "k \<le> ilog2 x" by simp
  then have "(2::rat) powi k \<le> 2 powi (ilog2 x)" by (intro power_int_increasing) simp_all
  with ilog2_bounds(1) [OF assms(1)] assms(2) show False by linarith
qed

lemma ilog2_ge:
  assumes "x \<noteq> 0" and "2 powi k \<le> \<bar>x\<bar>"
  shows "k \<le> ilog2 x"
proof (rule ccontr)
  assume "\<not> k \<le> ilog2 x"
  then have "ilog2 x + 1 \<le> k" by simp
  then have "(2::rat) powi (ilog2 x + 1) \<le> 2 powi k" by (intro power_int_increasing) simp_all
  with ilog2_bounds(2) [OF assms(1)] assms(2) show False by linarith
qed

lemma fl_gt_10_iff: "10 < fl d \<longleftrightarrow> 10 + 1 / 2 ^ 50 < d"
proof -
  consider (neg) "d \<le> 0" | (small) "0 < d" "d < 8" | (mid) "8 \<le> d" "d < 16" | (big) "16 \<le> d"
    by linarith
  then show ?thesis
  proof cases
    case neg
    have "d \<le> of_int 0 * ulp d" using neg by simp
    from fl_le [OF this] have "fl d \<le> 0" by simp
    with neg show ?thesis by (simp add: field_simps)
  next
    case small
    then have d0: "d \<noteq> 0" and ad: "\<bar>d\<bar> < 2 powi 3" by simp_all
    from ilog2_less [OF d0 ad] have e: "ilog2 d < 3" .
    define m where "m = max (ilog2 d - 52) (- 1074)"
    have m: "m \<le> - 50" using e by (simp add: m_def)
    have u: "ulp d = 2 powi m" by (simp add: ulp_def m_def)
    have "(8::rat) = 2 powi 3" by simp
    also have "\<dots> = 2 powi (3 - m) * 2 powi m" by (simp flip: power_int_add)
    also have "(2::rat) powi (3 - m) = of_int (2 ^ nat (3 - m))"
      using m by (simp add: power_int_nonneg_exp)
    finally have 8: "(8::rat) = of_int (2 ^ nat (3 - m)) * ulp d" by (simp only: u)
    have "d \<le> of_int (2 ^ nat (3 - m)) * ulp d" using small 8 by simp
    from fl_le [OF this] have "fl d \<le> 8" using 8 by simp
    with small show ?thesis by (simp add: field_simps)
  next
    case mid
    then have d0: "d \<noteq> 0" and ad: "\<bar>d\<bar> < 2 powi 4" and ad': "2 powi 3 \<le> \<bar>d\<bar>" by simp_all
    from ilog2_less [OF d0 ad] ilog2_ge [OF d0 ad'] have e: "ilog2 d = 3" by simp
    have u: "ulp d = 1 / 2 ^ 49" by (simp add: ulp_def e power_int_minus_divide)
    have f: "fl d = of_int (round_half_even (d * 2 ^ 49)) / 2 ^ 49"
      using d0 by (simp add: fl_def u)
    have ev: "even (10 * 2 ^ 49 :: int)" by simp
    have "10 < fl d \<longleftrightarrow> rat_of_int (10 * 2 ^ 49) < of_int (round_half_even (d * 2 ^ 49))"
      unfolding f by (simp add: field_simps)
    also have "\<dots> \<longleftrightarrow> 10 * 2 ^ 49 < round_half_even (d * 2 ^ 49)"
      by (simp only: of_int_less_iff)
    also have "\<dots> \<longleftrightarrow> of_int (10 * 2 ^ 49) + 1 / 2 < d * 2 ^ 49"
      by (rule round_half_even_gt_even [OF ev])
    also have "\<dots> \<longleftrightarrow> 10 + 1 / 2 ^ 50 < d"
      by (simp add: field_simps)
    finally show ?thesis .
  next
    case big
    then have d0: "d \<noteq> 0" and ad: "2 powi 4 \<le> \<bar>d\<bar>" by simp_all
    from ilog2_ge [OF d0 ad] have e: "4 \<le> ilog2 d" .
    then have u: "ulp d = 2 powi (ilog2 d - 52)" by (simp add: ulp_def)
    have "(2::rat) powi (ilog2 d) = 2 powi (52 + (ilog2 d - 52))" by simp
    also have "\<dots> = 2 powi 52 * 2 powi (ilog2 d - 52)" by (rule power_int_add) simp
    also have "(2::rat) powi 52 = of_int (2 ^ 52)" by simp
    finally have p: "(2::rat) powi (ilog2 d) = of_int (2 ^ 52) * ulp d" by (simp only: u)
    have "(2::rat) powi 4 \<le> 2 powi (ilog2 d)" using e by (intro power_int_increasing) simp_all
    then have 16: "16 \<le> (2::rat) powi (ilog2 d)" by simp
    have "of_int (2 ^ 52) * ulp d \<le> d" using ilog2_bounds(1) [OF d0] big p by simp
    from fl_ge [OF this] have "16 \<le> fl d" using 16 p by simp
    with big show ?thesis by (simp add: field_simps)
  qed
qed

lemma fl_error: "2 * \<bar>fl x - x\<bar> \<le> ulp x"
proof (cases "x = 0")
  case True
  then show ?thesis using ulp_pos [of x] by (simp add: fl_def)
next
  case False
  let ?y = "x / ulp x"
  have "fl x - x = (of_int (round_half_even ?y) - ?y) * ulp x"
    using False ulp_pos [of x] by (simp add: fl_def algebra_simps)
  then have "\<bar>fl x - x\<bar> = \<bar>?y - of_int (round_half_even ?y)\<bar> * ulp x"
    using ulp_pos [of x] by (simp add: abs_mult abs_minus_commute)
  then have "2 * \<bar>fl x - x\<bar> = (2 * \<bar>?y - of_int (round_half_even ?y)\<bar>) * ulp x" by simp
  also have "\<dots> \<le> 1 * ulp x"
    using round_half_even_near [of ?y] ulp_pos [of x] by (intro mult_right_mono) simp_all
  finally show ?thesis by simp
qed

section \<open>Float quotients that round like the exact quotient\<close>

text \<open>A multiple of the ulp of \<open>x\<close> is a double on the same side of \<open>x\<close>.\<close>

lemma fl_multiple:
  assumes "x = of_int k * ulp x"
  shows "fl x = x"
  using fl_le [of x k] fl_ge [of k x] assms by simp

text \<open>Below \<open>2 powi n\<close> every multiple of \<open>2 powi (n - 53)\<close> is a multiple of the ulp.\<close>

lemma multiple_of_ulp:
  assumes "x \<noteq> 0" and "\<bar>x\<bar> < 2 powi n" and "- 1074 \<le> n - 53"
  shows "\<exists>j. (2::rat) powi (n - 53) = of_int j * ulp x \<and> 0 < j"
proof -
  define m where "m = max (ilog2 x - 52) (- 1074)"
  have u: "ulp x = 2 powi m" by (simp add: ulp_def m_def)
  from ilog2_less [OF assms(1,2)] assms(3) have m: "m \<le> n - 53" by (simp add: m_def)
  have "(2::rat) powi (n - 53) = 2 powi ((n - 53 - m) + m)" by simp
  also have "\<dots> = 2 powi (n - 53 - m) * 2 powi m" by (rule power_int_add) simp
  also have "(2::rat) powi (n - 53 - m) = of_int (2 ^ nat (n - 53 - m))"
    using m by (simp add: power_int_nonneg_exp)
  finally have "(2::rat) powi (n - 53) = of_int (2 ^ nat (n - 53 - m)) * ulp x" by (simp only: u)
  moreover have "(0::int) < 2 ^ nat (n - 53 - m)" by simp
  ultimately show ?thesis by blast
qed

lemma half_multiple_of_ulp:
  assumes "x \<noteq> 0" and "\<bar>x\<bar> < 2 ^ 52"
  shows "\<exists>j. (1 / 2 :: rat) = of_int j * ulp x"
proof -
  have "\<bar>x\<bar> < 2 powi 52" using assms(2) by simp
  from multiple_of_ulp [OF assms(1) this] obtain j where "(2::rat) powi (52 - 53) = of_int j * ulp x"
    by auto
  moreover have "(2::rat) powi (52 - 53) = 1 / 2" by (simp add: power_int_minus_divide)
  ultimately show ?thesis by auto
qed

lemma fl_of_int:
  assumes "\<bar>n\<bar> \<le> 2 ^ 53"
  shows "fl (of_int n) = of_int n"
proof (cases "n = 0")
  case True
  then show ?thesis by (simp add: fl_def)
next
  case False
  let ?x = "rat_of_int n"
  have x0: "?x \<noteq> 0" using False by simp
  have "\<bar>?x\<bar> \<le> 2 ^ 53" using assms by (metis of_int_abs of_int_le_numeral_power_cancel_iff)
  then have lt: "\<bar>?x\<bar> < 2 powi 54" by simp
  from multiple_of_ulp [OF x0 lt] obtain j where j: "(2::rat) = of_int j * ulp ?x"
    by auto
  show ?thesis
  proof (cases "\<bar>n\<bar> = 2 ^ 53")
    case True
    then have "n = 2 ^ 53 \<or> n = - (2 ^ 53)" by linarith
    then have "?x = of_int (n div 2) * 2" by auto
    also have "\<dots> = of_int (n div 2 * j) * ulp ?x" using j by simp
    finally show ?thesis by (rule fl_multiple)
  next
    case False
    with assms have "\<bar>n\<bar> < 2 ^ 53" by simp
    then have "\<bar>?x\<bar> < 2 ^ 53" by (metis of_int_abs of_int_less_numeral_power_cancel_iff)
    then have lt': "\<bar>?x\<bar> < 2 powi 53" by simp
    from multiple_of_ulp [OF x0 lt'] obtain i where i: "(1::rat) = of_int i * ulp ?x"
      by auto
    have "?x = of_int n * 1" by simp
    also have "\<dots> = of_int (n * i) * ulp ?x" using i by simp
    finally show ?thesis by (rule fl_multiple)
  qed
qed

lemma round_half_even_gt_odd:
  assumes "odd m"
  shows "m < round_half_even y \<longleftrightarrow> of_int m + 1 / 2 \<le> y"
proof -
  define f where "f = \<lfloor>y\<rfloor>"
  have fy: "of_int f \<le> y" "y < of_int f + 1" unfolding f_def by linarith+
  have r: "round_half_even y = (if y - of_int f < 1 / 2 then f else if 1 / 2 < y - of_int f then f + 1
      else if even f then f else f + 1)"
    by (simp add: round_half_even_def Let_def f_def)
  show ?thesis
  proof
    assume a: "m < round_half_even y"
    show "of_int m + 1 / 2 \<le> y"
    proof (rule ccontr)
      assume "\<not> of_int m + 1 / 2 \<le> y"
      then have lt: "y < of_int m + 1 / 2" by simp
      with fy have "rat_of_int f < of_int m + 1" by linarith
      then have "rat_of_int f < of_int (m + 1)" by simp
      then have "f < m + 1" by (simp only: of_int_less_iff)
      then have fm: "f \<le> m" by simp
      show False
      proof (cases "f = m")
        case True
        with lt have "y - of_int f < 1 / 2" by simp
        with r True have "round_half_even y = m" by simp
        with a show False by simp
      next
        case False
        with fm have "f + 1 \<le> m" by simp
        moreover have "round_half_even y \<le> f + 1" unfolding r by simp
        ultimately show False using a by simp
      qed
    qed
  next
    assume a: "of_int m + 1 / 2 \<le> y"
    with fy have "rat_of_int m < of_int f + 1" by linarith
    then have "rat_of_int m < of_int (f + 1)" by simp
    then have "m < f + 1" by (simp only: of_int_less_iff)
    then have mf: "m \<le> f" by simp
    show "m < round_half_even y"
    proof (cases "f = m")
      case True
      with a have "1 / 2 \<le> y - of_int f" by simp
      with r True assms show ?thesis by (auto split: if_splits)
    next
      case False
      with mf have "m < f" by simp
      moreover have "f \<le> round_half_even y" unfolding r by simp
      ultimately show ?thesis by simp
    qed
  qed
qed

lemma round_half_even_cong:
  assumes "\<And>k. of_int k + 1 / 2 < x \<longleftrightarrow> of_int k + 1 / 2 < y"
    and "\<And>k. of_int k + 1 / 2 \<le> x \<longleftrightarrow> of_int k + 1 / 2 \<le> y"
  shows "round_half_even x = round_half_even y"
proof -
  have "m < round_half_even x \<longleftrightarrow> m < round_half_even y" for m
  proof (cases "even m")
    case True
    from round_half_even_gt_even [OF True, of x] round_half_even_gt_even [OF True, of y]
    show ?thesis using assms(1) [of m] by blast
  next
    case False
    from round_half_even_gt_odd [OF False, of x] round_half_even_gt_odd [OF False, of y]
    show ?thesis using assms(2) [of m] by blast
  qed
  then show ?thesis by (meson less_irrefl linorder_neqE)
qed

lemma abs_half_integer: "1 / 2 \<le> \<bar>rat_of_int k + 1 / 2\<bar>"
proof (cases "0 \<le> k")
  case True
  then have "0 \<le> rat_of_int k" by simp
  then show ?thesis by linarith
next
  case False
  then have "k \<le> - 1" by simp
  then have "rat_of_int k \<le> of_int (- 1)" by (simp only: of_int_le_iff)
  then show ?thesis by simp
qed

lemma abs_of_int_ge_1:
  assumes "i \<noteq> 0"
  shows "1 \<le> \<bar>rat_of_int i\<bar>"
proof -
  from assms have "1 \<le> \<bar>i\<bar>" by simp
  then have "rat_of_int 1 \<le> of_int \<bar>i\<bar>" by (simp only: of_int_le_iff)
  then show ?thesis by simp
qed

lemma ulp_normal:
  assumes "x \<noteq> 0" and "- 1074 \<le> ilog2 x - 52"
  shows "ulp x * 2 ^ 52 \<le> \<bar>x\<bar>"
proof -
  have "ulp x = 2 powi (ilog2 x - 52)" using assms(2) by (simp add: ulp_def)
  then have "ulp x * 2 ^ 52 = 2 powi (ilog2 x - 52) * 2 powi 52" by simp
  also have "\<dots> = 2 powi (ilog2 x - 52 + 52)" by (rule power_int_add [symmetric]) simp
  finally have "ulp x * 2 ^ 52 = 2 powi (ilog2 x)" by simp
  with ilog2_bounds(1) [OF assms(1)] show ?thesis by simp
qed

lemma ulp_lower:
  assumes "x \<noteq> 0"
  shows "\<bar>x\<bar> < ulp x * 2 ^ 53"
proof -
  have "(2::rat) powi (ilog2 x - 52) \<le> ulp x"
    unfolding ulp_def by (intro power_int_increasing) simp_all
  then have "2 powi (ilog2 x - 52) * 2 ^ 53 \<le> ulp x * 2 ^ 53" by simp
  moreover have "(2::rat) powi (ilog2 x - 52) * 2 ^ 53 = 2 powi (ilog2 x + 1)"
  proof -
    have "(2::rat) powi (ilog2 x - 52) * 2 ^ 53 = 2 powi (ilog2 x - 52) * 2 powi 53" by simp
    also have "\<dots> = 2 powi (ilog2 x - 52 + 53)" by (rule power_int_add [symmetric]) simp
    finally show ?thesis by (simp add: algebra_simps)
  qed
  ultimately show ?thesis using ilog2_bounds(2) [OF assms] by linarith
qed

lemma fl_subnormal_bound:
  assumes "x \<noteq> 0" and "ilog2 x - 52 < - 1074"
  shows "\<bar>fl x\<bar> < 1 / 2"
proof -
  have u: "ulp x = 2 powi (- 1074)" using assms(2) by (simp add: ulp_def)
  have "ilog2 x + 1 \<le> - 1022" using assms(2) by simp
  then have "(2::rat) powi (ilog2 x + 1) \<le> 2 powi (- 1022)" by (intro power_int_increasing) simp_all
  with ilog2_bounds(2) [OF assms(1)] have b: "\<bar>x\<bar> < 2 powi (- 1022)" by linarith
  have "(2::rat) powi (- 1022) = 2 powi (52 + (- 1074))" by simp
  also have "\<dots> = 2 powi 52 * 2 powi (- 1074)" by (rule power_int_add) simp
  finally have p: "(2::rat) powi (- 1022) = of_int (2 ^ 52) * ulp x" by (simp add: u)
  have "x \<le> of_int (2 ^ 52) * ulp x" using b p by linarith
  from fl_le [OF this] have le: "fl x \<le> 2 powi (- 1022)" by (simp only: p)
  have "of_int (- (2 ^ 52)) * ulp x \<le> x" using b p by simp
  from fl_ge [OF this] have ge: "- (2 powi (- 1022)) \<le> fl x" using p by simp
  have "(2::rat) powi (- 1022) \<le> 2 powi (- 2)" by (intro power_int_increasing) simp_all
  also have "(2::rat) powi (- 2) = 1 / 4" by (simp add: power_int_minus_divide)
  finally have "(2::rat) powi (- 1022) < 1 / 2" by simp
  with le ge show ?thesis by linarith
qed

text \<open>
  The float quotient of a double below \<open>2 ^ 52\<close> by an int is a half-integer only if the
  exact quotient is.
\<close>

lemma float_quotient_half_integer:
  assumes dt: "is_double t" and bt: "\<bar>t\<bar> < 2 ^ 52" and tol: "tolerance \<noteq> 0"
    and h: "fl (t / of_int tolerance) = of_int k + 1 / 2"
  shows "t / of_int tolerance = of_int k + 1 / 2"
proof (rule ccontr)
  let ?x = "t / rat_of_int tolerance"
  let ?h = "rat_of_int k + 1 / 2"
  assume ne: "?x \<noteq> ?h"
  have hn: "?h \<noteq> 0" using abs_half_integer [of k] by auto
  have x0: "?x \<noteq> 0"
  proof
    assume "?x = 0"
    then have "fl ?x = fl 0" by (rule arg_cong)
    also have "fl 0 = 0" by (simp add: fl_def)
    finally show False using h hn by simp
  qed
  then have t0: "t \<noteq> 0" by simp
  have tx: "t = ?x * of_int tolerance" using tol by simp
  have a1: "1 \<le> \<bar>rat_of_int tolerance\<bar>" using tol by (rule abs_of_int_ge_1)
  have normal: "- 1074 \<le> ilog2 ?x - 52"
  proof (rule ccontr)
    assume "\<not> - 1074 \<le> ilog2 ?x - 52"
    then have "ilog2 ?x - 52 < - 1074" by simp
    from fl_subnormal_bound [OF x0 this] h abs_half_integer [of k] show False by simp
  qed
  from fl_error [of ?x] h have e: "2 * \<bar>?h - ?x\<bar> \<le> ulp ?x" by simp
  define v where "v = ulp t"
  have v0: "0 < v" unfolding v_def by (rule ulp_pos)
  from dt t0 have "t = of_int (round_half_even (t / v)) * v"
    by (simp add: is_double_def fl_def v_def)
  then obtain jt where jt: "t = of_int jt * v" ..
  from half_multiple_of_ulp [OF t0 bt] obtain j2 where j2: "(1 / 2 :: rat) = of_int j2 * v"
    unfolding v_def by blast
  have "of_int tolerance * ?h = of_int (tolerance * (2 * k + 1)) * (1 / 2)"
    by (simp add: algebra_simps)
  also have "\<dots> = of_int (tolerance * (2 * k + 1) * j2) * v"
    by (simp only: j2) simp
  finally have th: "of_int tolerance * ?h = of_int (tolerance * (2 * k + 1) * j2) * v" .
  define i where "i = jt - tolerance * (2 * k + 1) * j2"
  have d: "t - of_int tolerance * ?h = of_int i * v"
    unfolding th i_def using jt by (simp add: algebra_simps)
  have "t - of_int tolerance * ?h = of_int tolerance * (?x - ?h)"
    using tol by (simp add: algebra_simps)
  then have d2: "\<bar>t - of_int tolerance * ?h\<bar> = \<bar>rat_of_int tolerance\<bar> * \<bar>?x - ?h\<bar>"
    by (simp only: abs_mult)
  have "t - of_int tolerance * ?h \<noteq> 0"
    using ne tol \<open>t - of_int tolerance * ?h = of_int tolerance * (?x - ?h)\<close> by simp
  then have "i \<noteq> 0" using d by auto
  then have "1 \<le> \<bar>rat_of_int i\<bar>" by (rule abs_of_int_ge_1)
  then have "1 * v \<le> \<bar>rat_of_int i\<bar> * v" using v0 by (intro mult_right_mono) simp_all
  then have "v \<le> \<bar>t - of_int tolerance * ?h\<bar>" using d v0 by (simp add: abs_mult)
  then have "v \<le> \<bar>rat_of_int tolerance\<bar> * \<bar>?x - ?h\<bar>" by (simp only: d2)
  then have "2 * v \<le> \<bar>rat_of_int tolerance\<bar> * (2 * \<bar>?h - ?x\<bar>)"
    by (simp add: abs_minus_commute)
  also have "\<dots> \<le> \<bar>rat_of_int tolerance\<bar> * ulp ?x"
    using e by (intro mult_left_mono) simp_all
  finally have l: "2 * v \<le> \<bar>rat_of_int tolerance\<bar> * ulp ?x" .
  have "\<bar>rat_of_int tolerance\<bar> * (ulp ?x * 2 ^ 52) \<le> \<bar>rat_of_int tolerance\<bar> * \<bar>?x\<bar>"
    using ulp_normal [OF x0 normal] by (intro mult_left_mono) simp_all
  also have "\<dots> = \<bar>t\<bar>"
  proof -
    have "rat_of_int tolerance * ?x = t" using tol by simp
    then have "\<bar>rat_of_int tolerance * ?x\<bar> = \<bar>t\<bar>" by (rule arg_cong)
    then show ?thesis by (simp only: abs_mult)
  qed
  also have "\<dots> < v * 2 ^ 53" unfolding v_def by (rule ulp_lower [OF t0])
  finally have "\<bar>rat_of_int tolerance\<bar> * ulp ?x * 2 ^ 52 < 2 * v * 2 ^ 52" by simp
  then have "\<bar>rat_of_int tolerance\<bar> * ulp ?x < 2 * v" by simp
  with l show False by simp
qed

lemma float_quotient_sides:
  assumes dt: "is_double t" and bt: "\<bar>t\<bar> < 2 ^ 52" and tol: "tolerance \<noteq> 0"
  shows "(of_int k + 1 / 2 < fl (t / of_int tolerance) \<longleftrightarrow> of_int k + 1 / 2 < t / of_int tolerance)
    \<and> (of_int k + 1 / 2 \<le> fl (t / of_int tolerance) \<longleftrightarrow> of_int k + 1 / 2 \<le> t / of_int tolerance)"
proof (cases "t = 0")
  case True
  then show ?thesis by (simp add: fl_def)
next
  case False
  let ?x = "t / rat_of_int tolerance"
  let ?h = "rat_of_int k + 1 / 2"
  have x0: "?x \<noteq> 0" using False tol by simp
  have a1: "1 \<le> \<bar>rat_of_int tolerance\<bar>" using tol by (rule abs_of_int_ge_1)
  have "\<bar>?x\<bar> = \<bar>t\<bar> / \<bar>rat_of_int tolerance\<bar>" by simp
  also have "\<dots> \<le> \<bar>t\<bar> / 1" using a1 by (intro divide_left_mono) simp_all
  finally have bx: "\<bar>?x\<bar> < 2 ^ 52" using bt by simp
  from half_multiple_of_ulp [OF x0 bx] obtain j where j: "(1 / 2 :: rat) = of_int j * ulp ?x"
    by blast
  have "?h = of_int (2 * k + 1) * (1 / 2)" by (simp add: algebra_simps)
  also have "\<dots> = of_int ((2 * k + 1) * j) * ulp ?x" by (simp only: j) simp
  finally have hm: "?h = of_int ((2 * k + 1) * j) * ulp ?x" .
  have le: "fl ?x \<le> ?h" if "?x \<le> ?h"
    using fl_le [of ?x "(2 * k + 1) * j"] that hm by simp
  have ge: "?h \<le> fl ?x" if "?h \<le> ?x"
    using fl_ge [of "(2 * k + 1) * j" ?x] that hm by simp
  have eq: "?x = ?h" if "fl ?x = ?h"
    using float_quotient_half_integer [OF dt bt tol that] .
  consider "?x < ?h" | "?x = ?h" | "?h < ?x" by linarith
  then show ?thesis
  proof cases
    case 1
    then have "fl ?x \<le> ?h" using le by simp
    moreover have "fl ?x \<noteq> ?h" using eq 1 by auto
    ultimately have "fl ?x < ?h" by simp
    with 1 show ?thesis by simp
  next
    case 2
    then have "fl ?x = ?h" using le ge by (simp add: order.antisym)
    with 2 show ?thesis by simp
  next
    case 3
    then have "?h \<le> fl ?x" using ge by simp
    moreover have "fl ?x \<noteq> ?h" using eq 3 by auto
    ultimately have "?h < fl ?x" by simp
    with 3 show ?thesis by simp
  qed
qed

lemma row_key_exact:
  assumes "is_double t" and "\<bar>t\<bar> < 2 ^ 52" and "tolerance \<noteq> 0" and "\<bar>tolerance\<bar> \<le> 2 ^ 53"
  shows "row_key t tolerance = round_half_even (t / of_int tolerance) * tolerance"
proof -
  have c: "float_of_int tolerance = of_int tolerance"
    unfolding float_of_int_def by (rule fl_of_int [OF assms(4)])
  have "round_half_even (fl (t / of_int tolerance)) = round_half_even (t / of_int tolerance)"
    using float_quotient_sides [OF assms(1,2,3)] by (intro round_half_even_cong) simp_all
  then show ?thesis by (simp add: row_key_def py_round_def float_div_def c)
qed

section \<open>Rounding of the bucket key\<close>

lemma key_dist:
  fixes t :: rat
  assumes "tolerance \<noteq> 0"
  shows "\<bar>t - of_int (k * tolerance)\<bar>
    = \<bar>of_int tolerance\<bar> * \<bar>t / of_int tolerance - of_int k\<bar>"
proof -
  have "t - of_int (k * tolerance) = of_int tolerance * (t / of_int tolerance - of_int k)"
    using assms by (simp add: algebra_simps)
  then show ?thesis by (simp only: abs_mult)
qed

text \<open>
  C2, in the form that holds of the code. A token whose \<^verbatim>\<open>top\<close> is \<open>t\<close> is filed
  under the key \<open>round q * tolerance\<close>, where \<open>q\<close> is the float quotient of \<open>t\<close> by
  the tolerance: the double nearest to the exact quotient, at most half an \<open>ulp\<close>
  from it. The key is a multiple of the tolerance nearest to \<open>q * tolerance\<close>, the
  even multiple when that lies exactly between two multiples (round half to even, not
  away from zero). When \<open>t\<close> is a double of magnitude below \<open>2 ^ 52\<close> and the
  tolerance has magnitude at most \<open>2 ^ 53\<close>, the key is the same as with the exact
  quotient: a multiple of the tolerance nearest to \<open>t\<close>, the even multiple when
  \<open>t\<close> lies exactly between two.
\<close>

theorem row_key_nearest_multiple_half_even:
  assumes "tolerance \<noteq> 0" and "tok_top obj = Some t"
  shows "bucket_loop [obj] tolerance [] = Inr [(row_key t tolerance, [obj])]
    \<and> row_key t tolerance = py_round (float_div t (float_of_int tolerance)) * tolerance
    \<and> 2 * \<bar>float_div t (float_of_int tolerance) - t / float_of_int tolerance\<bar>
        \<le> ulp (t / float_of_int tolerance)
    \<and> 2 * \<bar>float_div t (float_of_int tolerance) * of_int tolerance - of_int (row_key t tolerance)\<bar>
        \<le> \<bar>of_int tolerance\<bar>
    \<and> (2 * \<bar>float_div t (float_of_int tolerance) * of_int tolerance - of_int (row_key t tolerance)\<bar>
          = \<bar>of_int tolerance\<bar>
         \<longrightarrow> even (py_round (float_div t (float_of_int tolerance))))
    \<and> (is_double t \<and> \<bar>t\<bar> < 2 ^ 52 \<and> \<bar>tolerance\<bar> \<le> 2 ^ 53
         \<longrightarrow> row_key t tolerance = round_half_even (t / of_int tolerance) * tolerance
           \<and> 2 * \<bar>t - of_int (row_key t tolerance)\<bar> \<le> \<bar>of_int tolerance\<bar>
           \<and> (2 * \<bar>t - of_int (row_key t tolerance)\<bar> = \<bar>of_int tolerance\<bar>
                \<longrightarrow> even (round_half_even (t / of_int tolerance))))"
proof -
  let ?q = "float_div t (float_of_int tolerance)"
  have q: "(?q * of_int tolerance) / of_int tolerance = ?q" using assms(1) by simp
  have k: "row_key t tolerance = round_half_even ?q * tolerance"
    by (simp add: row_key_def py_round_def)
  have pos: "0 < \<bar>rat_of_int tolerance\<bar>" using assms(1) by simp
  have scaled_near: "2 * (\<bar>rat_of_int tolerance\<bar> * \<bar>y - of_int (round_half_even y)\<bar>)
      \<le> \<bar>rat_of_int tolerance\<bar>" for y
  proof -
    have "\<bar>rat_of_int tolerance\<bar> * (2 * \<bar>y - of_int (round_half_even y)\<bar>)
        \<le> \<bar>rat_of_int tolerance\<bar> * 1"
      using round_half_even_near [of y] pos by (intro mult_left_mono) simp_all
    then show ?thesis by (simp add: algebra_simps)
  qed
  have scaled_tie: "even (round_half_even y)"
    if "2 * (\<bar>rat_of_int tolerance\<bar> * \<bar>y - of_int (round_half_even y)\<bar>) = \<bar>rat_of_int tolerance\<bar>"
    for y
  proof -
    from that have "\<bar>rat_of_int tolerance\<bar> * (2 * \<bar>y - of_int (round_half_even y)\<bar>)
        = \<bar>rat_of_int tolerance\<bar> * 1"
      by (simp add: algebra_simps)
    then have "2 * \<bar>y - of_int (round_half_even y)\<bar> = 1"
      using pos by (simp only: mult_cancel_left) simp
    then show ?thesis by (rule round_half_even_tie)
  qed
  have d: "\<bar>?q * of_int tolerance - of_int (row_key t tolerance)\<bar>
      = \<bar>of_int tolerance\<bar> * \<bar>?q - of_int (round_half_even ?q)\<bar>"
    unfolding k using key_dist [OF assms(1), of "?q * of_int tolerance" "round_half_even ?q"]
    by (simp only: q)
  have near: "2 * \<bar>?q * of_int tolerance - of_int (row_key t tolerance)\<bar>
      \<le> \<bar>of_int tolerance\<bar>"
    unfolding d by (rule scaled_near)
  have tie: "even (py_round ?q)"
    if "2 * \<bar>?q * of_int tolerance - of_int (row_key t tolerance)\<bar> = \<bar>of_int tolerance\<bar>"
    unfolding py_round_def using that unfolding d by (rule scaled_tie)
  have err: "2 * \<bar>?q - t / float_of_int tolerance\<bar> \<le> ulp (t / float_of_int tolerance)"
    unfolding float_div_def by (rule fl_error)
  have loop: "bucket_loop [obj] tolerance [] = Inr [(row_key t tolerance, [obj])]"
    using assms by simp
  have exact: "row_key t tolerance = round_half_even (t / of_int tolerance) * tolerance
      \<and> 2 * \<bar>t - of_int (row_key t tolerance)\<bar> \<le> \<bar>of_int tolerance\<bar>
      \<and> (2 * \<bar>t - of_int (row_key t tolerance)\<bar> = \<bar>of_int tolerance\<bar>
           \<longrightarrow> even (round_half_even (t / of_int tolerance)))"
    if b: "is_double t \<and> \<bar>t\<bar> < 2 ^ 52 \<and> \<bar>tolerance\<bar> \<le> 2 ^ 53"
  proof -
    let ?x = "t / rat_of_int tolerance"
    from b have "is_double t" "\<bar>t\<bar> < 2 ^ 52" "\<bar>tolerance\<bar> \<le> 2 ^ 53" by simp_all
    from row_key_exact [OF this(1,2) assms(1) this(3)]
    have e: "row_key t tolerance = round_half_even ?x * tolerance" .
    have d': "\<bar>t - of_int (row_key t tolerance)\<bar>
        = \<bar>of_int tolerance\<bar> * \<bar>?x - of_int (round_half_even ?x)\<bar>"
      unfolding e by (rule key_dist [OF assms(1)])
    have "2 * \<bar>t - of_int (row_key t tolerance)\<bar> \<le> \<bar>of_int tolerance\<bar>"
      unfolding d' by (rule scaled_near)
    moreover have "even (round_half_even ?x)"
      if "2 * \<bar>t - of_int (row_key t tolerance)\<bar> = \<bar>of_int tolerance\<bar>"
      using that unfolding d' by (rule scaled_tie)
    ultimately show ?thesis using e by blast
  qed
  from loop near tie err exact show ?thesis by (simp add: row_key_def)
qed

theorem row_key_nearest_multiple_half_even_witness:
  "bucket_loop [word ''a'' 0 5 (9 / 2)] 3 [] = Inr [(6, [word ''a'' 0 5 (9 / 2)])]
   \<and> row_key (9 / 2) 3 = 6
   \<and> float_div (9 / 2) (float_of_int 3) = 3 / 2
   \<and> is_double (9 / 2)
   \<and> 2 * \<bar>9 / 2 - rat_of_int (row_key (9 / 2) 3)\<bar> = \<bar>rat_of_int 3\<bar>
   \<and> even (round_half_even ((9 / 2) / rat_of_int 3))
   \<and> row_key (2 ^ 53) 3 = 9007199254740990"
proof -
  have h: "(3::int) \<noteq> 0" by simp
  have o: "tok_top (word ''a'' 0 5 (9 / 2)) = Some (9 / 2)" by (simp add: word_def)
  have k: "row_key (9 / 2) 3 = 6" by code_simp
  have q: "float_div (9 / 2) (float_of_int 3) = 3 / 2" by code_simp
  have i: "is_double (9 / 2)" by code_simp
  have s: "\<bar>9 / 2 :: rat\<bar> < 2 ^ 52" "\<bar>3 :: int\<bar> \<le> 2 ^ 53" by simp_all
  have e: "2 * \<bar>9 / 2 - rat_of_int (row_key (9 / 2) 3)\<bar> = \<bar>rat_of_int 3\<bar>"
    unfolding k by simp
  have b: "row_key (2 ^ 53) 3 = 9007199254740990" by code_simp
  from row_key_nearest_multiple_half_even [OF h o] i s e
  have "bucket_loop [word ''a'' 0 5 (9 / 2)] 3 [] = Inr [(row_key (9 / 2) 3, [word ''a'' 0 5 (9 / 2)])]
      \<and> even (round_half_even ((9 / 2) / rat_of_int 3))"
    by blast
  with k q i e b show ?thesis by simp
qed

text \<open>
  C2 in the wording of the specification fails: a \<^verbatim>\<open>top\<close> of 1.5 with tolerance 3 is
  filed under key 0, not under key 3.
\<close>

theorem row_key_half_away_counterexample:
  "row_key (3 / 2) 3 = 0 \<and> row_key (3 / 2) 3 \<noteq> 3"
  by code_simp

section \<open>The dict of the first loop and the rows of the second\<close>

lemma fst_setdefault_append:
  "map fst (setdefault_append y obj d) = (if y \<in> set (map fst d) then map fst d else map fst d @ [y])"
  by (induction d) (auto simp: rev_image_eqI)

lemma mset_setdefault_append:
  "mset (concat (map snd (setdefault_append y obj d))) = mset (concat (map snd d)) + {#obj#}"
  by (induction d) auto

lemma dict_inv_setdefault_append:
  assumes "dict_inv tolerance d" and "key_of tolerance obj = Some y"
  shows "dict_inv tolerance (setdefault_append y obj d)"
proof -
  have "list_all (\<lambda>(k, v). v \<noteq> [] \<and> list_all (\<lambda>t. key_of tolerance t = Some k) v) (setdefault_append y obj d)"
    if "list_all (\<lambda>(k, v). v \<noteq> [] \<and> list_all (\<lambda>t. key_of tolerance t = Some k) v) d"
    using that assms(2) by (induction d) auto
  then show ?thesis using assms(1) by (simp add: dict_inv_def fst_setdefault_append)
qed

lemma setdefault_append_not_Nil: "setdefault_append y obj d \<noteq> []"
  by (cases d) (auto split: if_splits)

lemma bucket_loop_Inr:
  assumes "bucket_loop toks tolerance d = Inr d'" and "dict_inv tolerance d"
  shows "dict_inv tolerance d'
    \<and> mset (concat (map snd d')) = mset (concat (map snd d)) + mset toks
    \<and> list_all (\<lambda>t. tok_top t \<noteq> None) toks
    \<and> (toks = [] \<or> tolerance \<noteq> 0)
    \<and> (d' = [] \<longleftrightarrow> d = [] \<and> toks = [])"
  using assms
proof (induction toks arbitrary: d)
  case Nil
  then show ?case by simp
next
  case (Cons obj objs)
  from Cons.prems(1) obtain t where t: "tok_top obj = Some t" and tol: "tolerance \<noteq> 0"
    and rec: "bucket_loop objs tolerance (setdefault_append (row_key t tolerance) obj d) = Inr d'"
    by (auto split: option.splits if_splits)
  have k: "key_of tolerance obj = Some (row_key t tolerance)" using t by (simp add: key_of_def)
  note ih = Cons.IH [OF rec dict_inv_setdefault_append [OF Cons.prems(2) k]]
  show ?case using ih t tol
    by (simp add: mset_setdefault_append setdefault_append_not_Nil)
qed

lemma bucket_loop_total:
  assumes "list_all (\<lambda>t. tok_top t \<noteq> None) toks" and "tolerance \<noteq> 0"
  shows "\<exists>d'. bucket_loop toks tolerance d = Inr d'"
  using assms by (induction toks arbitrary: d) auto

lemma bucket_loop_Inl:
  assumes "bucket_loop toks tolerance d = Inl e"
  shows "e = KeyError ''top'' \<or> (e = ZeroDivisionError \<and> tolerance = 0)"
  using assms by (induction toks arbitrary: d) (auto split: option.splits if_splits)

lemma sorted_rows_loop_Inr:
  assumes "sorted_rows_loop ks d = Inr rows"
  shows "rows = map (\<lambda>k. sort_key (\<lambda>x. the (tok_x0 x)) (the (map_of d k))) ks
    \<and> list_all (\<lambda>k. map_of d k \<noteq> None \<and> list_all (\<lambda>x. tok_x0 x \<noteq> None) (the (map_of d k))) ks"
  using assms
  by (induction ks arbitrary: rows) (auto simp: sort_row_def split: option.splits sum.splits if_splits)

lemma sorted_rows_loop_total:
  assumes "list_all (\<lambda>k. map_of d k \<noteq> None \<and> list_all (\<lambda>x. tok_x0 x \<noteq> None) (the (map_of d k))) ks"
  shows "\<exists>rows. sorted_rows_loop ks d = Inr rows"
  using assms by (induction ks) (auto simp: sort_row_def)

lemma sorted_rows_loop_Inl:
  assumes "sorted_rows_loop ks d = Inl e"
  shows "\<exists>f. e = KeyError f"
  using assms
  by (induction ks arbitrary: e) (auto simp: sort_row_def split: option.splits sum.splits if_splits)

lemma map_of_keys_snd:
  assumes "distinct (map fst d)"
  shows "map (\<lambda>k. the (map_of d k)) (map fst d) = map snd d"
  using assms by (induction d) (auto simp: rev_image_eqI)

lemma mset_concat_map_cong:
  assumes "mset xs = mset ys"
  shows "mset (concat (map g xs)) = mset (concat (map g ys))"
proof -
  have "mset (concat (map g zs)) = sum_mset (image_mset (\<lambda>z. mset (g z)) (mset zs))" for zs
    by (induction zs) auto
  then show ?thesis using assms by simp
qed

lemma mset_concat_sort_key:
  "mset (concat (map (\<lambda>k. sort_key f (g k)) ks)) = mset (concat (map g ks))"
  by (induction ks) auto

lemma group_text_into_rows_Inr:
  assumes "group_text_into_rows toks tolerance = Inr rows"
  shows "\<exists>d. bucket_loop toks tolerance [] = Inr d \<and> dict_inv tolerance d
    \<and> mset (concat (map snd d)) = mset toks
    \<and> rows = map (\<lambda>k. sort_key (\<lambda>x. the (tok_x0 x)) (the (map_of d k))) (sort (map fst d))
    \<and> list_all (\<lambda>v. list_all (\<lambda>x. tok_x0 x \<noteq> None) v) (map snd d)
    \<and> list_all (\<lambda>t. tok_top t \<noteq> None) toks
    \<and> (toks = [] \<or> tolerance \<noteq> 0)
    \<and> (d = [] \<longleftrightarrow> toks = [])"
proof -
  from assms obtain d where d: "bucket_loop toks tolerance [] = Inr d"
    and l: "sorted_rows_loop (sort (map fst d)) d = Inr rows"
    by (auto simp: group_text_into_rows_def split: sum.splits)
  have i0: "dict_inv tolerance []" by (simp add: dict_inv_def)
  note b = bucket_loop_Inr [OF d i0]
  note s = sorted_rows_loop_Inr [OF l]
  from b have dist: "distinct (map fst d)" by (simp add: dict_inv_def)
  from s have "list_all (\<lambda>k. list_all (\<lambda>x. tok_x0 x \<noteq> None) (the (map_of d k))) (map fst d)"
    by (simp add: list_all_iff)
  then have "list_all (\<lambda>v. list_all (\<lambda>x. tok_x0 x \<noteq> None) v) (map (\<lambda>k. the (map_of d k)) (map fst d))"
    by (simp add: list_all_iff)
  then have x: "list_all (\<lambda>v. list_all (\<lambda>x. tok_x0 x \<noteq> None) v) (map snd d)"
    by (simp only: map_of_keys_snd [OF dist])
  show ?thesis using d b s x by auto
qed

lemma group_text_into_rows_mset:
  assumes "group_text_into_rows toks tolerance = Inr rows"
  shows "mset (concat rows) = mset toks"
proof -
  from group_text_into_rows_Inr [OF assms] obtain d where inv: "dict_inv tolerance d"
    and m: "mset (concat (map snd d)) = mset toks"
    and r: "rows = map (\<lambda>k. sort_key (\<lambda>x. the (tok_x0 x)) (the (map_of d k))) (sort (map fst d))"
    by blast
  from inv have dist: "distinct (map fst d)" by (simp add: dict_inv_def)
  have "mset (concat rows)
      = mset (concat (map (\<lambda>k. sort_key (\<lambda>x. the (tok_x0 x)) (the (map_of d k))) (map fst d)))"
    unfolding r by (rule mset_concat_map_cong) simp
  also have "\<dots> = mset (concat (map (\<lambda>k. the (map_of d k)) (map fst d)))"
    by (rule mset_concat_sort_key)
  also have "\<dots> = mset (concat (map snd d))"
    by (simp only: map_of_keys_snd [OF dist])
  finally show ?thesis using m by simp
qed

lemma group_text_into_rows_row:
  assumes "group_text_into_rows toks tolerance = Inr rows" and "r \<in> set rows"
  shows "r \<noteq> [] \<and> sorted (map (\<lambda>x. the (tok_x0 x)) r)
    \<and> list_all (\<lambda>x. tok_x0 x \<noteq> None) r
    \<and> (\<exists>k. list_all (\<lambda>t. key_of tolerance t = Some k) r)
    \<and> tolerance \<noteq> 0"
proof -
  from group_text_into_rows_Inr [OF assms(1)] obtain d where inv: "dict_inv tolerance d"
    and r: "rows = map (\<lambda>k. sort_key (\<lambda>x. the (tok_x0 x)) (the (map_of d k))) (sort (map fst d))"
    and x: "list_all (\<lambda>v. list_all (\<lambda>x. tok_x0 x \<noteq> None) v) (map snd d)"
    and z: "toks = [] \<or> tolerance \<noteq> 0" and e: "d = [] \<longleftrightarrow> toks = []"
    by blast
  from assms(2) r obtain k where k: "k \<in> set (map fst d)"
    and rk: "r = sort_key (\<lambda>x. the (tok_x0 x)) (the (map_of d k))" by auto
  from k obtain v where v: "(k, v) \<in> set d" by auto
  with inv have mv: "map_of d k = Some v" by (simp add: dict_inv_def)
  from inv v have ne: "v \<noteq> []" and ks: "list_all (\<lambda>t. key_of tolerance t = Some k) v"
    by (auto simp: dict_inv_def list_all_iff)
  from x v have xs: "list_all (\<lambda>x. tok_x0 x \<noteq> None) v" by (auto simp: list_all_iff)
  have rv: "r = sort_key (\<lambda>x. the (tok_x0 x)) v" using rk mv by simp
  have "r \<noteq> []" using ne rv by (metis length_sort length_0_conv)
  moreover have "sorted (map (\<lambda>x. the (tok_x0 x)) r)" unfolding rv by (rule sorted_sort_key)
  moreover have "list_all (\<lambda>x. tok_x0 x \<noteq> None) r" using xs rv by (simp add: list_all_iff)
  moreover have "list_all (\<lambda>t. key_of tolerance t = Some k) r" using ks rv by (simp add: list_all_iff)
  moreover have "tolerance \<noteq> 0" using z e v by auto
  ultimately show ?thesis by blast
qed

lemma group_text_into_rows_total:
  assumes "list_all (\<lambda>t. tok_top t \<noteq> None \<and> tok_x0 t \<noteq> None) toks" and "tolerance \<noteq> 0"
  shows "\<exists>rows. group_text_into_rows toks tolerance = Inr rows"
proof -
  from assms(1) have tops: "list_all (\<lambda>t. tok_top t \<noteq> None) toks" by (simp add: list_all_iff)
  from bucket_loop_total [OF tops assms(2)] obtain d where d: "bucket_loop toks tolerance [] = Inr d"
    by blast
  have i0: "dict_inv tolerance []" by (simp add: dict_inv_def)
  note b = bucket_loop_Inr [OF d i0]
  from b have dist: "distinct (map fst d)" by (simp add: dict_inv_def)
  from b have "set (concat (map snd d)) = set toks"
    by (metis append_Nil concat.simps(1) list.simps(8) mset.simps(1) add_0 set_mset_mset)
  with assms(1) have x: "\<forall>v \<in> set (map snd d). list_all (\<lambda>x. tok_x0 x \<noteq> None) v"
    by (auto simp: list_all_iff)
  have "map_of d k \<noteq> None \<and> list_all (\<lambda>x. tok_x0 x \<noteq> None) (the (map_of d k))"
    if "k \<in> set (sort (map fst d))" for k
  proof -
    from that obtain v where v: "(k, v) \<in> set d" by auto
    with dist have "map_of d k = Some v" by simp
    with v x show ?thesis by force
  qed
  then have "list_all (\<lambda>k. map_of d k \<noteq> None
      \<and> list_all (\<lambda>x. tok_x0 x \<noteq> None) (the (map_of d k))) (sort (map fst d))"
    unfolding list_all_iff [of _ "sort (map fst d)"] by blast
  from sorted_rows_loop_total [OF this] show ?thesis using d by (simp add: group_text_into_rows_def)
qed

lemma group_text_into_rows_Inl:
  assumes "group_text_into_rows toks tolerance = Inl e"
  shows "(\<exists>f. e = KeyError f) \<or> (e = ZeroDivisionError \<and> tolerance = 0)"
  using assms bucket_loop_Inl sorted_rows_loop_Inl
  by (fastforce simp: group_text_into_rows_def split: sum.splits)

lemma same_key_bucket:
  assumes "list_all (\<lambda>t. key_of tolerance t = Some k) ts" and "tolerance \<noteq> 0"
  shows "bucket_loop ts tolerance [(k, v)] = Inr [(k, v @ ts)]"
  using assms by (induction ts arbitrary: v) (auto simp: key_of_def)

lemma same_key_group:
  assumes "list_all (\<lambda>t. key_of tolerance t = Some k) r" and "tolerance \<noteq> 0" and "r \<noteq> []"
    and "list_all (\<lambda>x. tok_x0 x \<noteq> None) r" and "sorted (map (\<lambda>x. the (tok_x0 x)) r)"
  shows "group_text_into_rows r tolerance = Inr [r]"
proof -
  from assms(3) obtain t ts where r: "r = t # ts" by (cases r) auto
  from assms(1) r obtain y where y: "tok_top t = Some y" "row_key y tolerance = k"
    and ts: "list_all (\<lambda>t. key_of tolerance t = Some k) ts"
    by (auto simp: key_of_def)
  have "bucket_loop r tolerance [] = bucket_loop ts tolerance [(k, [t])]"
    using y assms(2) r by simp
  also have "\<dots> = Inr [(k, r)]" using same_key_bucket [OF ts assms(2)] r by simp
  finally have b: "bucket_loop r tolerance [] = Inr [(k, r)]" .
  have s: "sort_row r = Inr r"
    using assms(4) sort_key_id_if_sorted [OF assms(5)] by (simp add: sort_row_def)
  show ?thesis using b s by (simp add: group_text_into_rows_def)
qed

section \<open>Properties of the row clustering\<close>

text \<open>
  C8. Clustering is idempotent on its rows: every row that \<open>group_text_into_rows\<close>
  returns is mapped by \<open>group_text_into_rows\<close>, with the same tolerance, to the one-row
  sequence of that very row, in the same order.
\<close>

theorem reclustering_row_idempotent:
  assumes "group_text_into_rows toks tolerance = Inr rows" and "r \<in> set rows"
  shows "group_text_into_rows r tolerance = Inr [r]"
proof -
  from group_text_into_rows_row [OF assms] obtain k where
    "r \<noteq> []" "sorted (map (\<lambda>x. the (tok_x0 x)) r)" "list_all (\<lambda>x. tok_x0 x \<noteq> None) r"
    "list_all (\<lambda>t. key_of tolerance t = Some k) r" "tolerance \<noteq> 0"
    by blast
  then show ?thesis by (intro same_key_group [where k = k])
qed


theorem reclustering_row_idempotent_witness:
  "group_text_into_rows [word ''30'' 50 60 120, word ''Alice'' 0 35 121] 3
     = Inr [[word ''Alice'' 0 35 121, word ''30'' 50 60 120]]
   \<and> group_text_into_rows [word ''Alice'' 0 35 121, word ''30'' 50 60 120] 3
     = Inr [[word ''Alice'' 0 35 121, word ''30'' 50 60 120]]"
proof -
  have h: "group_text_into_rows [word ''30'' 50 60 120, word ''Alice'' 0 35 121] 3
     = Inr [[word ''Alice'' 0 35 121, word ''30'' 50 60 120]]"
    by code_simp
  have m: "[word ''Alice'' 0 35 121, word ''30'' 50 60 120]
     \<in> set [[word ''Alice'' 0 35 121, word ''30'' 50 60 120]]"
    by simp
  from reclustering_row_idempotent [OF h m] h show ?thesis by simp
qed

text \<open>
  C10. No row that \<open>group_text_into_rows\<close> returns is empty, and the row sequence is
  non-empty exactly when the token list is; the function returns rows whenever every
  token has its \<^verbatim>\<open>top\<close> and \<^verbatim>\<open>x0\<close> and the tolerance is not zero. So the caller,
  on a page without bordered tables, prints "No table detected" exactly when the page
  has no words.
\<close>

theorem rows_never_empty:
  "(\<forall>rows. group_text_into_rows toks tolerance = Inr rows
      \<longrightarrow> list_all (\<lambda>r. r \<noteq> []) rows \<and> (rows \<noteq> [] \<longleftrightarrow> toks \<noteq> []))
   \<and> (list_all (\<lambda>t. tok_top t \<noteq> None \<and> tok_x0 t \<noteq> None) toks \<and> tolerance \<noteq> 0
      \<longrightarrow> (\<exists>rows. group_text_into_rows toks tolerance = Inr rows))
   \<and> (\<forall>rows. extract_tables p = [] \<and> group_text_into_rows (extract_words p) 3 = Inr rows
      \<longrightarrow> (Print_no_table n \<in> set (fst (page_step n p acc)) \<longleftrightarrow> extract_words p = []))"
proof (intro conjI allI impI)
  fix rows assume g: "group_text_into_rows toks tolerance = Inr rows"
  show "list_all (\<lambda>r. r \<noteq> []) rows"
    using group_text_into_rows_row [OF g] by (simp add: list_all_iff)
  from group_text_into_rows_mset [OF g] show "rows \<noteq> [] \<longleftrightarrow> toks \<noteq> []"
    using group_text_into_rows_row [OF g] by (cases rows) auto
next
  assume "list_all (\<lambda>t. tok_top t \<noteq> None \<and> tok_x0 t \<noteq> None) toks \<and> tolerance \<noteq> 0"
  then show "\<exists>rows. group_text_into_rows toks tolerance = Inr rows"
    using group_text_into_rows_total by blast
next
  fix rows assume a: "extract_tables p = [] \<and> group_text_into_rows (extract_words p) 3 = Inr rows"
  then have g: "group_text_into_rows (extract_words p) 3 = Inr rows" by simp
  have e: "rows = [] \<longleftrightarrow> extract_words p = []"
    using group_text_into_rows_mset [OF g] group_text_into_rows_row [OF g] by (cases rows) auto
  show "Print_no_table n \<in> set (fst (page_step n p acc)) \<longleftrightarrow> extract_words p = []"
    using a e by (auto simp: page_step_def split: sum.splits)
qed

theorem rows_never_empty_witness:
  "group_text_into_rows [word ''30'' 50 60 120, word ''Name'' 0 30 100] 3
     = Inr [[word ''Name'' 0 30 100], [word ''30'' 50 60 120]]
   \<and> list_all (\<lambda>r. r \<noteq> []) [[word ''Name'' 0 30 100], [word ''30'' 50 60 120]]
   \<and> Print_no_table 1 \<notin> set (fst (page_step 1
        \<lparr>extract_tables = [], extract_words = [word ''30'' 50 60 120, word ''Name'' 0 30 100]\<rparr> []))"
proof -
  let ?toks = "[word ''30'' 50 60 120, word ''Name'' 0 30 100]"
  let ?p = "\<lparr>extract_tables = [], extract_words = ?toks\<rparr>"
  have h: "group_text_into_rows ?toks 3 = Inr [[word ''Name'' 0 30 100], [word ''30'' 50 60 120]]"
    by code_simp
  have w: "list_all (\<lambda>t. tok_top t \<noteq> None \<and> tok_x0 t \<noteq> None) ?toks \<and> (3::int) \<noteq> 0"
    by (simp add: word_def)
  have p: "extract_tables ?p = [] \<and> group_text_into_rows (extract_words ?p) 3
     = Inr [[word ''Name'' 0 30 100], [word ''30'' 50 60 120]]"
    using h by simp
  from rows_never_empty [of ?toks 3 ?p 1 "[]"] h w p show ?thesis by simp
qed

section \<open>The cell assembler refines the cells of the specification\<close>

lemma is_space_blank: "is_space CHR '' ''"
  by (simp add: is_space_def)

lemma strip_append_space:
  assumes "is_space c"
  shows "strip (s @ [c]) = strip s"
proof (cases "list_all is_space s")
  case True
  then have a: "\<forall>x\<in>set s. is_space x" by (simp add: list_all_iff)
  have d1: "dropWhile is_space s = []"
    using a dropWhile_eq_Nil_conv [of is_space s] by blast
  have "\<forall>x\<in>set (s @ [c]). is_space x" using a assms by simp
  then have d2: "dropWhile is_space (s @ [c]) = []"
    by (simp only: dropWhile_eq_Nil_conv)
  show ?thesis unfolding strip_def d1 d2 by simp
next
  case False
  then have "dropWhile is_space (s @ [c]) = dropWhile is_space s @ [c]"
    by (auto simp: list_all_iff dropWhile_append1)
  then show ?thesis using assms by (simp add: strip_def)
qed

lemma strip_append_blank: "strip (s @ '' '') = strip s"
  using strip_append_space [OF is_space_blank] by simp

lemma cell_acc_join:
  assumes "g \<noteq> []"
  shows "cell_acc g = join_spaces (map text_of g) @ '' ''"
  using assms
proof (induction g rule: induct_list012)
  case 1
  then show ?case by simp
next
  case (2 t)
  show ?case by (simp add: cell_acc_def)
next
  case (3 t t' ts)
  then show ?case by (simp add: cell_acc_def)
qed

lemma strip_cell_acc: "strip (cell_acc g) = cell_text g"
proof (cases g)
  case Nil
  then show ?thesis by (simp add: cell_acc_def cell_text_def)
next
  case (Cons t ts)
  then have "g \<noteq> []" by simp
  from cell_acc_join [OF this] show ?thesis
    by (simp only: cell_text_def strip_append_blank)
qed

lemma cell_acc_Cons: "cell_acc (t # g) = text_of t @ '' '' @ cell_acc g"
  by (simp add: cell_acc_def)

lemma spec_cells_not_Nil: "ws \<noteq> [] \<Longrightarrow> spec_cells ws \<noteq> []"
  by (induction ws rule: induct_list012) (auto split: list.splits)

lemma concat_spec_cells: "concat (spec_cells ws) = ws"
  by (induction ws rule: induct_list012) (auto split: list.splits)

lemma spec_cells_no_empty: "list_all (\<lambda>g. g \<noteq> []) (spec_cells ws)"
  by (induction ws rule: induct_list012) (auto split: list.splits)

text \<open>The cells that follow when the token \<open>t\<close> has just opened a cell.\<close>

lemma cells_after_opening:
  "(case ts of
      [] \<Rightarrow> [strip (text_of t @ '' '')]
    | t' # _ \<Rightarrow>
        if float_sub (x0_of t') (x1_of t) > col_tolerance
        then strip (text_of t @ '' '') # map cell_text (spec_cells ts)
        else (case spec_cells ts of
                [] \<Rightarrow> []
              | g # gs \<Rightarrow> strip ((text_of t @ '' '') @ cell_acc g) # map cell_text gs))
   = map cell_text (spec_cells (t # ts))"
proof (cases ts)
  case Nil
  then show ?thesis by (simp add: cell_text_def strip_append_blank)
next
  case (Cons t' ts')
  have o: "strip (text_of t @ '' '') = cell_text [t]"
    by (simp add: cell_text_def strip_append_blank)
  from Cons spec_cells_not_Nil [of ts] obtain g gs where g: "spec_cells (t' # ts') = g # gs"
    by (cases "spec_cells (t' # ts')") auto
  have m: "strip ((text_of t @ '' '') @ cell_acc g) = cell_text (t # g)"
    using strip_cell_acc [of "t # g"] by (simp add: cell_acc_Cons)
  show ?thesis unfolding Cons using g o m by simp
qed

text \<open>The cells that follow when the token \<open>t\<close> has just joined the cell \<open>cur\<close>.\<close>

lemma cells_after_joining:
  "(case ts of
      [] \<Rightarrow> [strip (cur @ text_of t @ '' '')]
    | t' # _ \<Rightarrow>
        if float_sub (x0_of t') (x1_of t) > col_tolerance
        then strip (cur @ text_of t @ '' '') # map cell_text (spec_cells ts)
        else (case spec_cells ts of
                [] \<Rightarrow> []
              | g # gs \<Rightarrow> strip ((cur @ text_of t @ '' '') @ cell_acc g) # map cell_text gs))
   = (case spec_cells (t # ts) of [] \<Rightarrow> [] | g # gs \<Rightarrow> strip (cur @ cell_acc g) # map cell_text gs)"
proof (cases ts)
  case Nil
  then show ?thesis by (simp add: cell_acc_def)
next
  case (Cons t' ts')
  from Cons spec_cells_not_Nil [of ts] obtain g gs where g: "spec_cells (t' # ts') = g # gs"
    by (cases "spec_cells (t' # ts')") auto
  show ?thesis unfolding Cons using g by (simp add: cell_acc_Cons cell_acc_def)
qed

lemma wf_token_fields:
  assumes "wf_token t"
  shows "tok_text t = Some (text_of t)" and "tok_x0 t = Some (x0_of t)"
    and "tok_x1 t = Some (x1_of t)"
  using assms by (auto simp: wf_token_def text_of_def x0_of_def x1_of_def)

lemma scan_words_flush:
  assumes "list_all wf_token ws" and "cur \<noteq> []"
  shows "flush (scan_words ws rd cur (Some l))
    = Inr (rd @ (case ws of
        [] \<Rightarrow> [strip cur]
      | t # _ \<Rightarrow>
          if float_sub (x0_of t) l > col_tolerance then strip cur # map cell_text (spec_cells ws)
          else (case spec_cells ws of
                  [] \<Rightarrow> []
                | g # gs \<Rightarrow> strip (cur @ cell_acc g) # map cell_text gs)))"
  using assms
proof (induction ws arbitrary: rd cur l)
  case Nil
  then show ?case by (simp add: append_cell_def)
next
  case (Cons t ts)
  from Cons.prems(1) have wt: "wf_token t" and wf: "list_all wf_token ts" by simp_all
  note f = wf_token_fields [OF wt]
  show ?case
  proof (cases "float_sub (x0_of t) l > col_tolerance")
    case True
    have "flush (scan_words (t # ts) rd cur (Some l))
        = flush (scan_words ts (rd @ [strip cur]) (text_of t @ '' '') (Some (x1_of t)))"
      using f True Cons.prems(2) by (simp add: new_cell_def append_cell_def)
    also have "\<dots> = Inr ((rd @ [strip cur]) @ map cell_text (spec_cells (t # ts)))"
      using Cons.IH [OF wf, of "text_of t @ '' ''" "rd @ [strip cur]" "x1_of t"]
      by (simp only: cells_after_opening) simp
    finally show ?thesis using True by simp
  next
    case False
    have "flush (scan_words (t # ts) rd cur (Some l))
        = flush (scan_words ts rd (cur @ text_of t @ '' '') (Some (x1_of t)))"
      using f False by (simp add: new_cell_def)
    also have "\<dots> = Inr (rd @ (case spec_cells (t # ts) of [] \<Rightarrow> []
        | g # gs \<Rightarrow> strip (cur @ cell_acc g) # map cell_text gs))"
      using Cons.IH [OF wf, of "cur @ text_of t @ '' ''" rd "x1_of t"]
      by (simp only: cells_after_joining) simp
    finally show ?thesis using False by simp
  qed
qed

lemma build_row_spec_cells:
  assumes "list_all wf_token r"
  shows "build_row r = Inr (map cell_text (spec_cells r))"
proof (cases r)
  case Nil
  then show ?thesis by (simp add: build_row_def append_cell_def)
next
  case (Cons t ts)
  from assms Cons have wt: "wf_token t" and wf: "list_all wf_token ts" by simp_all
  note f = wf_token_fields [OF wt]
  have "build_row r = flush (scan_words ts [] (text_of t @ '' '') (Some (x1_of t)))"
    using f Cons by (simp add: build_row_def new_cell_def append_cell_def)
  also have "\<dots> = Inr (map cell_text (spec_cells (t # ts)))"
    using scan_words_flush [OF wf, of "text_of t @ '' ''" "[]" "x1_of t"]
    by (simp only: cells_after_opening) simp
  finally show ?thesis using Cons by simp
qed

section \<open>Properties of the table\<close>

lemma build_table_spec_cells:
  assumes "list_all (list_all wf_token) rows"
  shows "build_table_from_rows rows = Inr (map (\<lambda>r. map cell_text (spec_cells r)) rows)"
  using assms by (induction rows) (simp_all add: build_row_spec_cells)

lemma concat_concat_spec_cells: "concat (concat (map spec_cells rows)) = concat rows"
  by (induction rows) (simp_all add: concat_spec_cells)

lemma group_text_into_rows_wf:
  assumes "group_text_into_rows toks tolerance = Inr rows" and "list_all P toks"
  shows "list_all (list_all P) rows"
proof -
  from group_text_into_rows_mset [OF assms(1)] have "set (concat rows) = set toks"
    by (rule mset_eq_setD)
  with assms(2) show ?thesis by (auto simp: list_all_iff)
qed

text \<open>
  C5. No token is lost: for every list of tokens that have their four fields, and every
  non-zero tolerance, the table of the core is made, cell by cell, of groups of tokens
  that together are a rearrangement of the input: every token is in exactly one group,
  as often as it is in the input, and the groups hold as many tokens as the input.
\<close>

theorem no_token_lost:
  assumes "list_all wf_token toks" and "tolerance \<noteq> 0"
  shows "\<exists>rows. group_text_into_rows toks tolerance = Inr rows
    \<and> core toks tolerance = Inr (map (\<lambda>r. map cell_text (spec_cells r)) rows)
    \<and> mset (concat (concat (map spec_cells rows))) = mset toks
    \<and> length (concat (concat (map spec_cells rows))) = length toks"
proof -
  from assms(1) have "list_all (\<lambda>t. tok_top t \<noteq> None \<and> tok_x0 t \<noteq> None) toks"
    by (simp add: list_all_iff wf_token_def)
  from group_text_into_rows_total [OF this assms(2)] obtain rows
    where g: "group_text_into_rows toks tolerance = Inr rows" by blast
  note wf = group_text_into_rows_wf [OF g assms(1)]
  have c: "core toks tolerance = Inr (map (\<lambda>r. map cell_text (spec_cells r)) rows)"
    using g build_table_spec_cells [OF wf] by (simp add: core_def)
  have m: "mset (concat (concat (map spec_cells rows))) = mset toks"
    using group_text_into_rows_mset [OF g] by (simp only: concat_concat_spec_cells)
  from m have "length (concat (concat (map spec_cells rows))) = length toks"
    by (rule mset_eq_length)
  with g c m show ?thesis by blast
qed

theorem no_token_lost_witness:
  "group_text_into_rows [word ''30'' 50 60 120, word ''Age'' 50 70 100, word ''Name'' 0 30 100,
        word ''Alice'' 0 35 120, word ''B.'' 38 45 121] 3
     = Inr [[word ''Name'' 0 30 100, word ''Age'' 50 70 100],
            [word ''Alice'' 0 35 120, word ''B.'' 38 45 121, word ''30'' 50 60 120]]
   \<and> core [word ''30'' 50 60 120, word ''Age'' 50 70 100, word ''Name'' 0 30 100,
        word ''Alice'' 0 35 120, word ''B.'' 38 45 121] 3
     = Inr [[''Name'', ''Age''], [''Alice B. 30'']]"
proof -
  let ?toks = "[word ''30'' 50 60 120, word ''Age'' 50 70 100, word ''Name'' 0 30 100,
        word ''Alice'' 0 35 120, word ''B.'' 38 45 121]"
  have w: "list_all wf_token ?toks" by (simp add: wf_token_def word_def)
  have z: "(3::int) \<noteq> 0" by simp
  have g: "group_text_into_rows ?toks 3
     = Inr [[word ''Name'' 0 30 100, word ''Age'' 50 70 100],
            [word ''Alice'' 0 35 120, word ''B.'' 38 45 121, word ''30'' 50 60 120]]"
    by code_simp
  have c: "map (\<lambda>r. map cell_text (spec_cells r))
       [[word ''Name'' 0 30 100, word ''Age'' 50 70 100],
        [word ''Alice'' 0 35 120, word ''B.'' 38 45 121, word ''30'' 50 60 120]]
     = [[''Name'', ''Age''], [''Alice B. 30'']]"
    by code_simp
  from no_token_lost [OF w z] g c show ?thesis by auto
qed

lemma strip_no_outer_space:
  assumes "s = [] \<or> (\<not> is_space (hd s) \<and> \<not> is_space (last s))"
  shows "strip s = s"
proof (cases s)
  case Nil
  then show ?thesis by (simp add: strip_def)
next
  case (Cons c cs)
  with assms have h: "\<not> is_space (hd s)" and l: "\<not> is_space (last s)" by simp_all
  have d: "dropWhile is_space s = s" using h Cons by simp
  define xs where "xs = rev (butlast s)"
  from Cons have "s = butlast s @ [last s]" by simp
  then have "rev s = rev (butlast s @ [last s])" by (rule arg_cong)
  then have r: "rev s = last s # xs" by (simp only: xs_def rev_append rev.simps append.simps)
  have k: "dropWhile is_space (last s # xs) = last s # xs" using l by simp
  have "rev (rev s) = s" by simp
  then have "rev (last s # xs) = s" by (simp only: r)
  then show ?thesis unfolding strip_def d r k .
qed

lemma group_single:
  assumes "tok_top t \<noteq> None" and "tok_x0 t \<noteq> None" and "tolerance \<noteq> 0"
  shows "group_text_into_rows [t] tolerance = Inr [[t]]"
  using assms by (auto simp: group_text_into_rows_def sort_row_def)

text \<open>
  C3, in the form that holds of the code. For a single token with all its fields the table of the core has
  exactly one row with exactly one cell: the text of the token with the white space at
  both of its ends removed, which is the text itself when the text neither begins nor
  ends with white space. In general every cell is the texts of its tokens joined by
  single spaces, with the white space at both ends removed.
\<close>

theorem cells_are_stripped_joins:
  assumes "wf_token t" and "tolerance \<noteq> 0" and "list_all wf_token r"
  shows "core [t] tolerance = Inr [[strip (text_of t)]]
    \<and> (text_of t = [] \<or> (\<not> is_space (hd (text_of t)) \<and> \<not> is_space (last (text_of t)))
        \<longrightarrow> core [t] tolerance = Inr [[text_of t]])
    \<and> build_row r = Inr (map (\<lambda>g. strip (join_spaces (map text_of g))) (spec_cells r))"
proof -
  from assms(1) have "tok_top t \<noteq> None" "tok_x0 t \<noteq> None" by (simp_all add: wf_token_def)
  from group_single [OF this assms(2)] have g: "group_text_into_rows [t] tolerance = Inr [[t]]" .
  have "list_all wf_token [t]" using assms(1) by simp
  from build_row_spec_cells [OF this] have "build_row [t] = Inr [strip (text_of t)]"
    by (simp add: cell_text_def)
  with g have c: "core [t] tolerance = Inr [[strip (text_of t)]]" by (simp add: core_def)
  have b: "build_row r = Inr (map (\<lambda>g. strip (join_spaces (map text_of g))) (spec_cells r))"
    using build_row_spec_cells [OF assms(3)] by (simp add: cell_text_def [abs_def])
  show ?thesis using c b strip_no_outer_space [of "text_of t"] by auto
qed

theorem cells_are_stripped_joins_witness:
  "core [word ''Total: '' 0 30 100] 3 = Inr [[''Total:'']]
   \<and> core [word ''Total'' 0 30 100] 3 = Inr [[''Total'']]
   \<and> build_row [word '' a'' 0 5 10, word ''b'' 8 12 10, word ''c '' 40 45 10] = Inr [''a b'', ''c'']"
proof -
  have w1: "wf_token (word ''Total: '' 0 30 100)" by (simp add: wf_token_def word_def)
  have w2: "wf_token (word ''Total'' 0 30 100)" by (simp add: wf_token_def word_def)
  have z: "(3::int) \<noteq> 0" by simp
  have w3: "list_all wf_token [word '' a'' 0 5 10, word ''b'' 8 12 10, word ''c '' 40 45 10]"
    by (simp add: wf_token_def word_def)
  have s1: "strip (text_of (word ''Total: '' 0 30 100)) = ''Total:''" by code_simp
  have s2: "\<not> is_space (hd (text_of (word ''Total'' 0 30 100)))
     \<and> \<not> is_space (last (text_of (word ''Total'' 0 30 100)))" by code_simp
  have s2': "text_of (word ''Total'' 0 30 100) = ''Total''" by code_simp
  have s3: "map (\<lambda>g. strip (join_spaces (map text_of g)))
       (spec_cells [word '' a'' 0 5 10, word ''b'' 8 12 10, word ''c '' 40 45 10]) = [''a b'', ''c'']"
    by code_simp
  have a: "core [word ''Total: '' 0 30 100] 3 = Inr [[''Total:'']]"
    using cells_are_stripped_joins [OF w1 z w3, unfolded s1] by blast
  have "core [word ''Total'' 0 30 100] 3 = Inr [[text_of (word ''Total'' 0 30 100)]]"
    using cells_are_stripped_joins [OF w2 z w3] s2 by blast
  then have b: "core [word ''Total'' 0 30 100] 3 = Inr [[''Total'']]"
    by (simp only: s2')
  have c: "build_row [word '' a'' 0 5 10, word ''b'' 8 12 10, word ''c '' 40 45 10]
     = Inr [''a b'', ''c'']"
    using cells_are_stripped_joins [OF w1 z w3, unfolded s3] by blast
  from a b c show ?thesis by blast
qed

text \<open>
  C3 in the wording of the specification fails: white space at the beginning of the first text of a cell is
  not preserved, so the cell of the single token \<open>'' a''\<close> is \<open>''a''\<close>, not the text.
\<close>

theorem leading_space_counterexample:
  "core [word '' a'' 0 5 10] 3 = Inr [[''a'']] \<and> core [word '' a'' 0 5 10] 3 \<noteq> Inr [['' a'']]"
  by code_simp

lemma float_sub_gt_10: "float_sub a b > col_tolerance \<longleftrightarrow> a - b > 10 + 1 / 2 ^ 50"
  unfolding float_sub_def col_tolerance_def by (rule fl_gt_10_iff)

lemma spec_cells_step:
  "spec_cells (t # t' # ts) =
     (if x0_of t' - x1_of t > 10 + 1 / 2 ^ 50 then [t] # spec_cells (t' # ts)
      else (t # hd (spec_cells (t' # ts))) # tl (spec_cells (t' # ts)))"
proof -
  have "spec_cells (t' # ts) \<noteq> []" by (rule spec_cells_not_Nil) simp
  then obtain g gs where "spec_cells (t' # ts) = g # gs" by (cases "spec_cells (t' # ts)") auto
  then show ?thesis by (simp add: float_sub_gt_10)
qed

text \<open>
  C4, in the form that holds of the code. For every list of rows of tokens with all
  their fields, \<open>build_table_from_rows\<close> returns, row by row, the cells of the
  specification: a token opens a cell exactly when it is the first of the row or the
  float difference of its \<^verbatim>\<open>x0\<close> and the \<^verbatim>\<open>x1\<close> of the token before it is greater
  than 10, which is when the exact difference is greater than \<open>10 + 1 / 2 ^ 50\<close>;
  otherwise it joins the cell of the token before it. The cells split the row into
  non-empty runs of neighbours. A gap of 5 or of 10 merges two tokens, a gap of 20
  separates them.
\<close>

theorem cell_boundaries:
  assumes "list_all (list_all wf_token) rows"
  shows "build_table_from_rows rows = Inr (map (\<lambda>r. map cell_text (spec_cells r)) rows)
    \<and> list_all (\<lambda>r. concat (spec_cells r) = r \<and> list_all (\<lambda>g. g \<noteq> []) (spec_cells r)) rows
    \<and> (float_sub a b > col_tolerance \<longleftrightarrow> a - b > 10 + 1 / 2 ^ 50)
    \<and> spec_cells (t # t' # ts) =
        (if x0_of t' - x1_of t > 10 + 1 / 2 ^ 50 then [t] # spec_cells (t' # ts)
         else (t # hd (spec_cells (t' # ts))) # tl (spec_cells (t' # ts)))"
proof -
  have "concat (spec_cells r) = r \<and> list_all (\<lambda>g. g \<noteq> []) (spec_cells r)" for r
    by (simp add: concat_spec_cells spec_cells_no_empty)
  then have "list_all (\<lambda>r. concat (spec_cells r) = r \<and> list_all (\<lambda>g. g \<noteq> []) (spec_cells r)) rows"
    unfolding list_all_iff [of _ rows] by blast
  with build_table_spec_cells [OF assms] float_sub_gt_10 [of a b] spec_cells_step [of t t' ts]
  show ?thesis by blast
qed

theorem cell_boundaries_witness:
  "build_table_from_rows
      [[word ''word1'' 0 20 100, word ''word2'' 25 40 100],
       [word ''Name'' 0 30 100, word ''Age'' 50 70 100],
       [word ''a'' 0 20 100, word ''b'' 30 40 100]]
     = Inr [[''word1 word2''], [''Name'', ''Age''], [''a b'']]
   \<and> spec_cells [word ''Name'' 0 30 100, word ''Age'' 50 70 100]
       = [[word ''Name'' 0 30 100], [word ''Age'' 50 70 100]]"
proof -
  let ?rows = "[[word ''word1'' 0 20 100, word ''word2'' 25 40 100],
       [word ''Name'' 0 30 100, word ''Age'' 50 70 100],
       [word ''a'' 0 20 100, word ''b'' 30 40 100]]"
  have w: "list_all (list_all wf_token) ?rows" by (simp add: wf_token_def word_def)
  have c: "map (\<lambda>r. map cell_text (spec_cells r)) ?rows
     = [[''word1 word2''], [''Name'', ''Age''], [''a b'']]" by code_simp
  have c4: "spec_cells [word ''Name'' 0 30 100, word ''Age'' 50 70 100]
       = [[word ''Name'' 0 30 100], [word ''Age'' 50 70 100]]" by code_simp
  have "build_table_from_rows ?rows = Inr [[''word1 word2''], [''Name'', ''Age''], [''a b'']]"
    using cell_boundaries [OF w, unfolded c] by blast
  with c4 show ?thesis by blast
qed

text \<open>
  C4 in the wording of the specification fails: the doubles nearest to 0.3 and 10.3
  differ by more than 10, yet their float difference is 10 and the two tokens are
  merged into one cell.
\<close>

theorem float_gap_counterexample:
  "is_double (5404319552844595 / 2 ^ 54) \<and> is_double (2899192260119757 / 2 ^ 48)
   \<and> 2899192260119757 / 2 ^ 48 - 5404319552844595 / 2 ^ 54 > col_tolerance
   \<and> build_table_from_rows
        [[word ''a'' 0 (5404319552844595 / 2 ^ 54) 100, word ''b'' (2899192260119757 / 2 ^ 48) 11 100]]
       = Inr [[''a b'']]"
  by code_simp

lemma scan_words_last:
  assumes "list_all wf_token ws" and "ws \<noteq> []"
  shows "\<exists>rd' p. scan_words ws rd cur lx
    = Inr (rd', p @ text_of (last ws) @ '' '', Some (x1_of (last ws)))"
  using assms
proof (induction ws arbitrary: rd cur lx)
  case Nil
  then show ?case by simp
next
  case (Cons t ts)
  from Cons.prems(1) have wt: "wf_token t" and wf: "list_all wf_token ts" by simp_all
  note f = wf_token_fields [OF wt]
  obtain b where b: "new_cell t lx = Inr b"
    using f by (cases lx) (simp_all add: new_cell_def)
  show ?case
  proof (cases ts)
    case Nil
    show ?thesis using f b Nil by (cases b) auto
  next
    case (Cons t' ts')
    then have ne: "ts \<noteq> []" by simp
    have l: "last (t # ts) = last ts" using ne by simp
    show ?thesis
      using f b Cons.IH [OF wf ne] unfolding l by (cases b) auto
  qed
qed

lemma build_row_flush:
  assumes "list_all wf_token r" and "r \<noteq> []"
  shows "\<exists>row_data current_cell.
          scan_words r [] [] None = Inr (row_data, current_cell, Some (x1_of (last r)))
          \<and> current_cell \<noteq> []
          \<and> map cell_text (spec_cells r) = row_data @ [strip current_cell]
          \<and> strip current_cell = cell_text (last (spec_cells r))
          \<and> last r \<in> set (last (spec_cells r))"
proof -
  let ?gs = "spec_cells r"
  from scan_words_last [OF assms] obtain rd p where
    s: "scan_words r [] [] None = Inr (rd, p @ text_of (last r) @ '' '', Some (x1_of (last r)))"
    by blast
  define cur where "cur = p @ text_of (last r) @ '' ''"
  have c: "cur \<noteq> []" by (simp add: cur_def)
  have s': "scan_words r [] [] None = Inr (rd, cur, Some (x1_of (last r)))"
    using s by (simp only: cur_def)
  have b: "build_row r = Inr (rd @ [strip cur])"
    using s' c by (simp add: build_row_def append_cell_def)
  have g: "?gs \<noteq> []" using assms(2) by (rule spec_cells_not_Nil)
  have e: "last ?gs \<noteq> []" using spec_cells_no_empty [of r] g by (simp add: list_all_iff)
  have "concat ?gs = r" by (rule concat_spec_cells)
  then have "r = concat (butlast ?gs) @ last ?gs"
    using g by (metis append_butlast_last_id concat.simps concat_append append_Nil2)
  then have "last r = last (last ?gs)" using e by (metis last_appendR)
  then have m: "last r \<in> set (last ?gs)" using e by simp
  have "Inr (rd @ [strip cur]) = (Inr (map cell_text ?gs) :: error + string list)"
    using b build_row_spec_cells [OF assms(1)] by simp
  then have eq: "map cell_text ?gs = rd @ [strip cur]" by simp
  then have "last (rd @ [strip cur]) = last (map cell_text ?gs)" by simp
  then have l: "strip cur = cell_text (last ?gs)" using g by (simp add: last_map)
  with s' c eq m show ?thesis by blast
qed

text \<open>
  C7. For every list of rows of tokens with all their fields,
  \<open>build_table_from_rows\<close> returns a table with one cell sequence for each row. An
  empty row gives the empty cell sequence. For a non-empty row the scan ends with a
  non-empty accumulator, which the flush appends: the cell sequence is the cells
  completed in the scan followed by the stripped accumulator, so it is not empty, and
  that last cell is the cell of the specification that holds the last token of the row.
\<close>

theorem trailing_cell_flushed:
  assumes "list_all (list_all wf_token) rows"
  shows "\<exists>table. build_table_from_rows rows = Inr table \<and> length table = length rows
    \<and> list_all2 (\<lambda>r cells.
          (r = [] \<longrightarrow> cells = [])
          \<and> (r \<noteq> [] \<longrightarrow> (\<exists>row_data current_cell.
                scan_words r [] [] None = Inr (row_data, current_cell, Some (x1_of (last r)))
                \<and> current_cell \<noteq> []
                \<and> cells = row_data @ [strip current_cell]
                \<and> strip current_cell = cell_text (last (spec_cells r))
                \<and> last r \<in> set (last (spec_cells r))))) rows table"
proof -
  let ?P = "\<lambda>r cells.
          (r = [] \<longrightarrow> cells = [])
          \<and> (r \<noteq> [] \<longrightarrow> (\<exists>row_data current_cell.
                scan_words r [] [] None = Inr (row_data, current_cell, Some (x1_of (last r)))
                \<and> current_cell \<noteq> []
                \<and> cells = row_data @ [strip current_cell]
                \<and> strip current_cell = cell_text (last (spec_cells r))
                \<and> last r \<in> set (last (spec_cells r))))"
  let ?table = "map (\<lambda>r. map cell_text (spec_cells r)) rows"
  have "?P r (map cell_text (spec_cells r))" if "r \<in> set rows" for r
  proof -
    from that assms have wf: "list_all wf_token r" by (simp add: list_all_iff)
    show ?thesis
    proof (cases "r = []")
      case True
      then show ?thesis by simp
    next
      case False
      from build_row_flush [OF wf False] False show ?thesis by simp
    qed
  qed
  then have "list_all2 ?P rows ?table"
    by (simp add: list_all2_map2 list_all2_same)
  moreover have "build_table_from_rows rows = Inr ?table" by (rule build_table_spec_cells [OF assms])
  moreover have "length ?table = length rows" by simp
  ultimately show ?thesis by blast
qed

theorem trailing_cell_flushed_witness:
  "build_table_from_rows
      [[word ''Name'' 0 30 100, word ''of'' 35 40 100, word ''Age'' 60 70 100], [],
       [word ''x'' 0 5 120]]
     = Inr [[''Name of'', ''Age''], [], [''x'']]
   \<and> scan_words [word ''Name'' 0 30 100, word ''of'' 35 40 100, word ''Age'' 60 70 100] [] [] None
     = Inr ([''Name of''], ''Age '', Some 70)"
proof -
  let ?rows = "[[word ''Name'' 0 30 100, word ''of'' 35 40 100, word ''Age'' 60 70 100], [],
       [word ''x'' 0 5 120]]"
  have w: "list_all (list_all wf_token) ?rows" by (simp add: wf_token_def word_def)
  have s: "scan_words [word ''Name'' 0 30 100, word ''of'' 35 40 100, word ''Age'' 60 70 100] [] [] None
     = Inr ([''Name of''], ''Age '', Some 70)" by code_simp
  have e: "build_table_from_rows ?rows = Inr [[''Name of'', ''Age''], [], [''x'']]" by code_simp
  from trailing_cell_flushed [OF w] obtain table where
    t: "build_table_from_rows ?rows = Inr table" and "length table = length ?rows" by blast
  from t e have "table = [[''Name of'', ''Age''], [], [''x'']]" by simp
  with t s show ?thesis by blast
qed

section \<open>Errors of the core\<close>

lemma scan_words_Inr:
  assumes "scan_words ws rd cur lx = Inr st"
  shows "list_all (\<lambda>t. tok_x1 t \<noteq> None) ws"
  using assms
  by (induction ws arbitrary: rd cur lx)
    (auto split: sum.splits option.splits if_splits)

lemma scan_words_Inl:
  assumes "scan_words ws rd cur lx = Inl e"
  shows "\<exists>f. e = KeyError f"
  using assms
  by (induction ws arbitrary: rd cur lx)
    (auto simp: new_cell_def split: sum.splits option.splits if_splits)

lemma build_row_Inr:
  assumes "build_row r = Inr cells"
  shows "list_all (\<lambda>t. tok_x1 t \<noteq> None) r"
proof (cases "scan_words r [] [] None")
  case (Inl e)
  with assms show ?thesis by (simp add: build_row_def)
next
  case (Inr st)
  then show ?thesis by (rule scan_words_Inr)
qed

lemma build_row_Inl:
  assumes "build_row r = Inl e"
  shows "\<exists>f. e = KeyError f"
proof (cases "scan_words r [] [] None")
  case (Inl e')
  with assms have "e' = e" by (simp add: build_row_def)
  with Inl show ?thesis using scan_words_Inl by blast
next
  case (Inr st)
  with assms show ?thesis by (cases st) (simp add: build_row_def)
qed

lemma build_table_from_rows_Inr:
  assumes "build_table_from_rows rows = Inr table"
  shows "list_all (list_all (\<lambda>t. tok_x1 t \<noteq> None)) rows"
  using assms
  by (induction rows arbitrary: table) (auto split: sum.splits dest: build_row_Inr)

lemma build_table_from_rows_Inl:
  assumes "build_table_from_rows rows = Inl e"
  shows "\<exists>f. e = KeyError f"
  using assms
  by (induction rows) (auto split: sum.splits dest: build_row_Inl)

lemma core_Inr:
  assumes "core toks tolerance = Inr table"
  shows "list_all (\<lambda>t. tok_top t \<noteq> None \<and> tok_x0 t \<noteq> None \<and> tok_x1 t \<noteq> None) toks"
proof -
  from assms obtain rows where g: "group_text_into_rows toks tolerance = Inr rows"
    and b: "build_table_from_rows rows = Inr table"
    by (auto simp: core_def split: sum.splits)
  from group_text_into_rows_Inr [OF g] obtain d where "dict_inv tolerance d"
    and m: "mset (concat (map snd d)) = mset toks"
    and x: "list_all (list_all (\<lambda>x. tok_x0 x \<noteq> None)) (map snd d)"
    and t: "list_all (\<lambda>t. tok_top t \<noteq> None) toks"
    by blast
  from m have "set (concat (map snd d)) = set toks" by (rule mset_eq_setD)
  then have "set toks = set (concat (map snd d))" by (rule sym)
  with x have x0: "list_all (\<lambda>t. tok_x0 t \<noteq> None) toks" by (auto simp: list_all_iff)
  from group_text_into_rows_mset [OF g] have "set (concat rows) = set toks" by (rule mset_eq_setD)
  then have "set toks = set (concat rows)" by (rule sym)
  with build_table_from_rows_Inr [OF b] have x1: "list_all (\<lambda>t. tok_x1 t \<noteq> None) toks"
    by (auto simp: list_all_iff)
  from t x0 x1 show ?thesis by (simp add: list_all_iff)
qed

lemma core_Inl:
  assumes "core toks tolerance = Inl e"
  shows "(\<exists>f. e = KeyError f) \<or> (e = ZeroDivisionError \<and> tolerance = 0)"
proof (cases "group_text_into_rows toks tolerance")
  case (Inl e')
  with assms have "e' = e" by (simp add: core_def)
  with Inl show ?thesis using group_text_into_rows_Inl by blast
next
  case (Inr rows)
  with assms have "build_table_from_rows rows = Inl e" by (simp add: core_def)
  then show ?thesis using build_table_from_rows_Inl by blast
qed

text \<open>
  C9. When some token of the input lacks \<^verbatim>\<open>top\<close>, \<^verbatim>\<open>x0\<close> or \<^verbatim>\<open>x1\<close>, the core
  returns no table but an error, for every tolerance; the error is a
  \<^verbatim>\<open>KeyError\<close> unless the tolerance is zero and the division fails first. No
  default is put in the place of the missing coordinate.
\<close>

theorem malformed_token_fails:
  assumes "\<not> list_all (\<lambda>t. tok_top t \<noteq> None \<and> tok_x0 t \<noteq> None \<and> tok_x1 t \<noteq> None) toks"
  shows "\<exists>e. core toks tolerance = Inl e
    \<and> ((\<exists>f. e = KeyError f) \<or> (e = ZeroDivisionError \<and> tolerance = 0))"
proof (cases "core toks tolerance")
  case (Inl e)
  then show ?thesis using core_Inl by blast
next
  case (Inr table)
  from core_Inr [OF this] assms show ?thesis by contradiction
qed

theorem malformed_token_fails_witness:
  "core [word ''a'' 0 5 10, \<lparr>tok_text = Some ''b'', tok_x0 = Some 8, tok_x1 = None, tok_top = Some 10\<rparr>] 3
     = Inl (KeyError ''x1'')
   \<and> core [\<lparr>tok_text = Some ''b'', tok_x0 = None, tok_x1 = Some 9, tok_top = Some 10\<rparr>] 3
     = Inl (KeyError ''x0'')
   \<and> core [word ''a'' 0 5 10, \<lparr>tok_text = Some ''b'', tok_x0 = Some 8, tok_x1 = Some 9, tok_top = None\<rparr>] 3
     = Inl (KeyError ''top'')"
proof -
  let ?toks = "[word ''a'' 0 5 10, \<lparr>tok_text = Some ''b'', tok_x0 = Some 8, tok_x1 = None, tok_top = Some 10\<rparr>]"
  have h: "\<not> list_all (\<lambda>t. tok_top t \<noteq> None \<and> tok_x0 t \<noteq> None \<and> tok_x1 t \<noteq> None) ?toks"
    by simp
  from malformed_token_fails [OF h, of 3] obtain e where e: "core ?toks 3 = Inl e" by blast
  have "core ?toks 3 = Inl (KeyError ''x1'')" by code_simp
  moreover have "core [\<lparr>tok_text = Some ''b'', tok_x0 = None, tok_x1 = Some 9, tok_top = Some 10\<rparr>] 3
     = Inl (KeyError ''x0'')" by code_simp
  moreover have "core [word ''a'' 0 5 10, \<lparr>tok_text = Some ''b'', tok_x0 = Some 8, tok_x1 = Some 9, tok_top = None\<rparr>] 3
     = Inl (KeyError ''top'')" by code_simp
  ultimately show ?thesis using e by simp
qed

section \<open>When the caller falls back on the core\<close>

lemma usable_iff: "usable t \<longleftrightarrow> (\<exists>row \<in> set t. \<exists>cell \<in> set row. cell \<noteq> None)"
proof
  assume "usable t"
  then show "\<exists>row \<in> set t. \<exists>cell \<in> set row. cell \<noteq> None"
    by (auto simp: usable_def list_ex_iff)
next
  assume "\<exists>row \<in> set t. \<exists>cell \<in> set row. cell \<noteq> None"
  then obtain row cell where r: "row \<in> set t" and c: "cell \<in> set row" "cell \<noteq> None" by blast
  from c have "row \<noteq> []" by auto
  with r c show "usable t" unfolding usable_def list_ex_iff by auto
qed

lemma page_step_events:
  "fst (page_step n p acc) =
     (if extract_tables p \<noteq> [] then []
      else if group_text_into_rows (extract_words p) 3 = Inr [] then [Extract_words n, Print_no_table n]
      else [Extract_words n])"
  by (auto simp: page_step_def split: sum.splits)

lemma page_step_event_page:
  assumes "e \<in> set (fst (page_step n p acc))"
  shows "event_page e = n"
  using assms unfolding page_step_events by (auto split: if_splits)

lemma pages_loop_event_page:
  assumes "e \<in> set (fst (pages_loop n ps acc))"
  shows "n \<le> event_page e"
  using assms
proof (induction ps arbitrary: n acc)
  case Nil
  then show ?case by simp
next
  case (Cons p ps)
  obtain tr res where s: "page_step n p acc = (tr, res)" by (cases "page_step n p acc")
  show ?case
  proof (cases res)
    case (Inl err)
    with Cons.prems s have "e \<in> set (fst (page_step n p acc))" by simp
    from page_step_event_page [OF this] show ?thesis by simp
  next
    case (Inr ts)
    obtain tr' res' where l: "pages_loop (Suc n) ps ts = (tr', res')"
      by (cases "pages_loop (Suc n) ps ts")
    from Cons.prems s Inr l have "e \<in> set tr \<or> e \<in> set tr'" by simp
    then show ?thesis
    proof
      assume "e \<in> set tr"
      with s have "e \<in> set (fst (page_step n p acc))" by simp
      from page_step_event_page [OF this] show ?thesis by simp
    next
      assume "e \<in> set tr'"
      with l have "e \<in> set (fst (pages_loop (Suc n) ps ts))" by simp
      from Cons.IH [OF this] show ?thesis by simp
    qed
  qed
qed

lemma pages_loop_fallback:
  assumes "pages_loop n ps acc = (tr, Inr ts)" and "i < length ps"
  shows "Extract_words (n + i) \<in> set tr \<longleftrightarrow> extract_tables (ps ! i) = []"
  using assms
proof (induction ps arbitrary: n acc tr i)
  case Nil
  then show ?case by simp
next
  case (Cons p ps)
  obtain tr1 res where s: "page_step n p acc = (tr1, res)" by (cases "page_step n p acc")
  from Cons.prems(1) s obtain ts1 where r: "res = Inr ts1" by (cases res) auto
  obtain tr2 res2 where l: "pages_loop (Suc n) ps ts1 = (tr2, res2)"
    by (cases "pages_loop (Suc n) ps ts1")
  from Cons.prems(1) s r l have tr: "tr = tr1 @ tr2" and res2: "res2 = Inr ts" by simp_all
  have t1: "tr1 = fst (page_step n p acc)" using s by simp
  have t2: "tr2 = fst (pages_loop (Suc n) ps ts1)" using l by simp
  show ?case
  proof (cases i)
    case 0
    have "Extract_words n \<notin> set tr2"
      using pages_loop_event_page [of "Extract_words n" "Suc n" ps ts1] t2 by auto
    moreover have "Extract_words n \<in> set tr1 \<longleftrightarrow> extract_tables p = []"
      unfolding t1 page_step_events by simp
    ultimately show ?thesis using 0 tr by simp
  next
    case (Suc j)
    with Cons.prems(2) have j: "j < length ps" by simp
    have "Extract_words (n + i) \<notin> set tr1"
      using page_step_event_page [of "Extract_words (n + i)" n p acc] t1 Suc by auto
    moreover have "Extract_words (Suc n + j) \<in> set tr2 \<longleftrightarrow> extract_tables (ps ! j) = []"
      using Cons.IH [OF _ j, of "Suc n" ts1 tr2] l res2 by simp
    ultimately show ?thesis using Suc tr by simp
  qed
qed

text \<open>
  C1, in the form that holds of the code. The fallback (the call of \<^verbatim>\<open>page.extract_words()\<close> and the core on
  its result) runs for a page exactly when \<^verbatim>\<open>page.extract_tables()\<close> returns the
  empty list, in the loop body and in every run of \<open>extract_tables_from_pdf\<close> that
  ends without an error. When the list is not empty the page adds its usable tables,
  possibly none, and the fallback does not run. A table is usable when it has a row
  with a cell that is not \<^verbatim>\<open>None\<close>.
\<close>

theorem fallback_iff_no_tables:
  "(Extract_words n \<in> set (fst (page_step n p acc)) \<longleftrightarrow> extract_tables p = [])
   \<and> (extract_tables p \<noteq> []
        \<longrightarrow> page_step n p acc = ([], Inr (acc @ filter usable (extract_tables p))))
   \<and> (\<forall>tr ts i. extract_tables_from_pdf pages = (tr, Inr ts) \<and> i < length pages
        \<longrightarrow> (Extract_words (Suc i) \<in> set tr \<longleftrightarrow> extract_tables (pages ! i) = []))
   \<and> (usable t \<longleftrightarrow> (\<exists>row \<in> set t. \<exists>cell \<in> set row. cell \<noteq> None))"
proof (intro conjI allI impI)
  show "Extract_words n \<in> set (fst (page_step n p acc)) \<longleftrightarrow> extract_tables p = []"
    unfolding page_step_events by simp
next
  assume "extract_tables p \<noteq> []"
  then show "page_step n p acc = ([], Inr (acc @ filter usable (extract_tables p)))"
    by (simp add: page_step_def)
next
  fix tr ts i
  assume a: "extract_tables_from_pdf pages = (tr, Inr ts) \<and> i < length pages"
  then have "pages_loop 1 pages [] = (tr, Inr ts)" "i < length pages"
    by (simp_all add: extract_tables_from_pdf_def)
  from pages_loop_fallback [OF this]
  show "Extract_words (Suc i) \<in> set tr \<longleftrightarrow> extract_tables (pages ! i) = []" by simp
next
  show "usable t \<longleftrightarrow> (\<exists>row \<in> set t. \<exists>cell \<in> set row. cell \<noteq> None)" by (rule usable_iff)
qed

theorem fallback_iff_no_tables_witness:
  "extract_tables_from_pdf
      [\<lparr>extract_tables = [[[Some ''x'', None]]], extract_words = [word ''x'' 0 5 10]\<rparr>,
       \<lparr>extract_tables = [], extract_words = [word ''a'' 0 5 10, word ''b'' 30 35 10]\<rparr>]
     = ([Extract_words 2], Inr [[[Some ''x'', None]], [[Some ''a'', Some ''b'']]])
   \<and> Extract_words 1 \<notin> set [Extract_words 2]
   \<and> Extract_words 2 \<in> set [Extract_words 2]
   \<and> usable [[Some ''x'', None]]"
proof -
  let ?p1 = "\<lparr>extract_tables = [[[Some ''x'', None]]], extract_words = [word ''x'' 0 5 10]\<rparr>"
  let ?p2 = "\<lparr>extract_tables = [], extract_words = [word ''a'' 0 5 10, word ''b'' 30 35 10]\<rparr>"
  have e: "extract_tables_from_pdf [?p1, ?p2]
     = ([Extract_words 2], Inr [[[Some ''x'', None]], [[Some ''a'', Some ''b'']]])"
    by code_simp
  note t = fallback_iff_no_tables [of 1 ?p1 "[]" "[?p1, ?p2]" "[[Some ''x'', None]]"]
  from t have u: "usable [[Some ''x'', None]]" by simp
  from t e have "Extract_words (Suc 1) \<in> set [Extract_words 2] \<longleftrightarrow> extract_tables ([?p1, ?p2] ! 1) = []"
    by (metis One_nat_def length_Cons lessI list.size(3))
  then have "Extract_words 2 \<in> set [Extract_words 2]" by simp
  with e u show ?thesis by simp
qed

text \<open>
  C1 in the wording of the specification fails: a page whose only bordered table has no usable row yields
  no usable table, yet the fallback does not run and the page adds nothing, although
  the core would build a table from its words.
\<close>

theorem unusable_table_counterexample:
  "\<not> list_ex usable [[[None]]]
   \<and> extract_tables_from_pdf [\<lparr>extract_tables = [[[None]]], extract_words = [word ''a'' 0 5 10]\<rparr>]
       = ([], Inr [])
   \<and> core [word ''a'' 0 5 10] 3 = Inr [[''a'']]"
  by code_simp

section \<open>Empty input\<close>

text \<open>
  C6. For the empty token list \<open>group_text_into_rows\<close> returns the empty row sequence
  and the cell assembler the empty table, for every tolerance and without an error; a
  page without bordered tables and without words adds no table, raises nothing and is
  reported by the message "No table detected".
\<close>

theorem empty_input_no_table:
  "group_text_into_rows [] tolerance = Inr []
   \<and> build_table_from_rows [] = Inr []
   \<and> core [] tolerance = Inr []
   \<and> page_step n \<lparr>extract_tables = [], extract_words = []\<rparr> acc
       = ([Extract_words n, Print_no_table n], Inr acc)
   \<and> extract_tables_from_pdf [\<lparr>extract_tables = [], extract_words = []\<rparr>]
       = ([Extract_words 1, Print_no_table 1], Inr [])"
  by (simp add: group_text_into_rows_def core_def page_step_def extract_tables_from_pdf_def)

end
